theory Spec2Isabelle
  imports Main "HOL-Library.Sublist"
begin

section \<open>JavaScript strings and values\<close>

text \<open>
  A JavaScript string is a sequence of UTF-16 code units; a code unit is modelled by its
  number. \<open>str\<close> embeds an ASCII literal of the source.
\<close>

type_synonym jsstring = "nat list"

definition str :: "string \<Rightarrow> jsstring" where
  "str s = map of_char s"

text \<open>Decimal rendering of a non-negative integer, as a template literal renders it.\<close>

function show_nat :: "nat \<Rightarrow> jsstring" where
  "show_nat n = (if n < 10 then [48 + n] else show_nat (n div 10) @ [48 + n mod 10])"
  by pat_completeness auto
termination
  by (relation "measure id") auto

declare show_nat.simps [simp del]

definition show_int :: "int \<Rightarrow> jsstring" where
  "show_int i = (if i < 0 then 45 # show_nat (nat (- i)) else show_nat (nat i))"

text \<open>\<open>Array.prototype.join\<close>.\<close>

fun join :: "jsstring \<Rightarrow> jsstring list \<Rightarrow> jsstring" where
  "join sep [] = []"
| "join sep [x] = x"
| "join sep (x # y # ys) = x @ sep @ join sep (y # ys)"

text \<open>
  The values a chunk property of type \<open>unknown\<close> holds: plain data, as the model-calling
  runtime delivers it (parsed JSON and strings), and \<open>undefined\<close> for an absent property.
  A number is modelled by its integer value. An object is an ordinary object: its own
  properties are the data properties listed, in enumeration order, and it inherits from
  \<open>Object.prototype\<close>.
\<close>

datatype jsval =
    JUndefined
  | JNull
  | JBool bool
  | JNum int
  | JStr jsstring
  | JArr "jsval list"
  | JObj "(jsstring \<times> jsval) list"

text \<open>
  What a call gives: the value it returned (for a promise, the value it resolved to), or
  the value it raised (rejected with).
\<close>

datatype 'a outcome = Returned 'a | Raised jsval

fun returns :: "'a outcome \<Rightarrow> bool" where
  "returns (Returned x) = True"
| "returns (Raised e) = False"

text \<open>The \<open>TypeError\<close> the language raises, named by its kind.\<close>

definition TypeError :: jsval where
  "TypeError = JStr (str ''TypeError'')"

text \<open>
  \<open>String(v)\<close>: the string conversion of plain data. An object is converted by its
  \<open>toString\<close>: the inherited one gives \<open>[object Object]\<close>; an own property \<open>toString\<close>
  is data, so it is not callable, the inherited \<open>valueOf\<close> gives the object back, and the
  conversion raises a \<open>TypeError\<close>. An array is converted by joining the conversions of
  its elements, \<open>null\<close> and \<open>undefined\<close> giving the empty string, and raises when the
  conversion of an element does.
\<close>

fun js_String :: "jsval \<Rightarrow> jsstring outcome"
  and element_strings :: "jsval list \<Rightarrow> jsstring list outcome"
where
  "js_String JUndefined = Returned (str ''undefined'')"
| "js_String JNull = Returned (str ''null'')"
| "js_String (JBool b) = Returned (if b then str ''true'' else str ''false'')"
| "js_String (JNum n) = Returned (show_int n)"
| "js_String (JStr s) = Returned s"
| "js_String (JArr xs) =
     (case element_strings xs of
        Raised e \<Rightarrow> Raised e
      | Returned ss \<Rightarrow> Returned (join (str '','') ss))"
| "js_String (JObj ps) =
     (if str ''toString'' \<in> set (map fst ps) then Raised TypeError
      else Returned (str ''[object Object]''))"
| "element_strings [] = Returned []"
| "element_strings (x # xs) =
     (case (if x = JUndefined \<or> x = JNull then Returned [] else js_String x) of
        Raised e \<Rightarrow> Raised e
      | Returned s \<Rightarrow>
          (case element_strings xs of
             Raised e \<Rightarrow> Raised e
           | Returned ss \<Rightarrow> Returned (s # ss)))"

section \<open>Regular expressions of the summariser\<close>

text \<open>
  A regular expression is modelled by its matcher at the start of a string: the length of
  the match there, if any. \<open>match_all\<close> is \<open>String.prototype.match\<close> with the \<open>g\<close> flag
  (all matches, left to right, each search resuming where the previous match ended, one
  unit further after an empty match); \<open>replace_all\<close> is \<open>String.prototype.replace\<close>
  with the \<open>g\<close> flag and a constant replacement.
\<close>

type_synonym regex = "jsstring \<Rightarrow> nat option"

function match_all :: "regex \<Rightarrow> jsstring \<Rightarrow> jsstring list" where
  "match_all m [] = (case m [] of None \<Rightarrow> [] | Some n \<Rightarrow> [] # [])"
| "match_all m (c # cs) =
     (case m (c # cs) of
        None \<Rightarrow> match_all m cs
      | Some n \<Rightarrow> take n (c # cs) # match_all m (drop (max n 1) (c # cs)))"
  by pat_completeness auto
termination
  by (relation "measure (\<lambda>(m, s). length s)") auto

function replace_all :: "regex \<Rightarrow> jsstring \<Rightarrow> jsstring \<Rightarrow> jsstring" where
  "replace_all m rep [] = (case m [] of None \<Rightarrow> [] | Some n \<Rightarrow> rep)"
| "replace_all m rep (c # cs) =
     (case m (c # cs) of
        None \<Rightarrow> c # replace_all m rep cs
      | Some n \<Rightarrow>
          rep @ (if n = 0 then c # replace_all m rep cs
                 else replace_all m rep (drop n (c # cs))))"
  by pat_completeness auto
termination
  by (relation "measure (\<lambda>(m, rep, s). length s)") auto

text \<open>\<open>/<entry>/\<close>\<close>

definition re_entry :: regex where
  "re_entry s = (if prefix (str ''<entry>'') s then Some 7 else None)"

text \<open>
  \<open>/<title>([^<]+)<\/title>/\<close>: after the opening tag the greedy class takes the longest
  run of units other than \<open><\<close> and gives units back one at a time, down to one, until
  the closing tag follows.
\<close>

definition re_title :: regex where
  "re_title s =
     (if prefix (str ''<title>'') s then
        (let r = drop 7 s; k = length (takeWhile (\<lambda>c. c \<noteq> 60) r)
         in case find (\<lambda>j. prefix (str ''</title>'') (drop j r)) (rev [1..<Suc k]) of
              None \<Rightarrow> None
            | Some j \<Rightarrow> Some (7 + j + 8))
      else None)"

text \<open>\<open>/<\/?title>/\<close>: the optional slash is tried first.\<close>

definition re_title_tag :: regex where
  "re_title_tag s =
     (if prefix (str ''</title>'') s then Some 8
      else if prefix (str ''<title>'') s then Some 7
      else None)"

text \<open>
  White space as \<open>\s\<close> and \<open>trim\<close> see it: the WhiteSpace and LineTerminator code points.
\<close>

definition is_ws :: "nat \<Rightarrow> bool" where
  "is_ws c \<longleftrightarrow>
     c = 9 \<or> c = 10 \<or> c = 11 \<or> c = 12 \<or> c = 13 \<or> c = 32 \<or> c = 160 \<or> c = 5760
     \<or> (8192 \<le> c \<and> c \<le> 8202) \<or> c = 8232 \<or> c = 8233 \<or> c = 8239 \<or> c = 8287
     \<or> c = 12288 \<or> c = 65279"

text \<open>\<open>/\s+/\<close>\<close>

definition re_ws :: regex where
  "re_ws s = (let n = length (takeWhile is_ws s) in if 0 < n then Some n else None)"

definition trim :: "jsstring \<Rightarrow> jsstring" where
  "trim s = rev (dropWhile is_ws (rev (dropWhile is_ws s)))"

text \<open>\<open>xs.slice(a, b)\<close> for \<open>0 \<le> a \<le> b\<close>.\<close>

definition slice :: "nat \<Rightarrow> nat \<Rightarrow> 'a list \<Rightarrow> 'a list" where
  "slice a b xs = take (b - a) (drop a xs)"

section \<open>The stream transformer\<close>

text \<open>
  An upstream chunk: its discriminant and the properties the transformer reads; a property
  the chunk does not have reads as \<open>undefined\<close>. Properties it never reads are left out.
\<close>

record chunk =
  type :: jsstring
  toolName :: jsval
  toolCallId :: jsval
  input :: jsval
  output' :: jsval
  text' :: jsval
  error :: jsval

text \<open>
  The canonical events. An optional field whose value is \<open>undefined\<close> is an absent one:
  \<open>toolCallId\<close> is \<open>None\<close>, \<open>input\<close> and \<open>output\<close> are \<open>JUndefined\<close>.
\<close>

datatype StreamEvent =
    ToolCall jsstring jsstring "jsstring option" jsval
      \<comment> \<open>tool, message, toolCallId, input\<close>
  | ToolResult jsstring jsstring "jsstring option" jsval jsval
      \<comment> \<open>tool, message, toolCallId, input, output\<close>
  | LlmStart jsstring jsstring
      \<comment> \<open>model, message\<close>
  | Token jsstring
      \<comment> \<open>content\<close>
  | Complete jsstring
      \<comment> \<open>message\<close>
  | Error jsstring
      \<comment> \<open>message\<close>

definition MODEL_NAME :: jsstring where
  "MODEL_NAME = str ''gpt-5''"

text \<open>\<open>String(chunk.toolName ?? 'tool')\<close>\<close>

definition toolName_of :: "chunk \<Rightarrow> jsstring outcome" where
  "toolName_of c =
     js_String (if toolName c = JUndefined \<or> toolName c = JNull then JStr (str ''tool'')
                else toolName c)"

text \<open>\<open>typeof chunk.toolCallId === 'string' ? chunk.toolCallId : undefined\<close>\<close>

definition toolCallId_of :: "chunk \<Rightarrow> jsstring option" where
  "toolCallId_of c = (case toolCallId c of JStr s \<Rightarrow> Some s | _ \<Rightarrow> None)"

text \<open>The summary message of a \<open>tool-result\<close> chunk.\<close>

definition paperTitles :: "jsstring \<Rightarrow> jsstring list" where
  "paperTitles out =
     map (\<lambda>t. replace_all re_ws (str '' '') (trim (replace_all re_title_tag [] t)))
       (slice 1 4 (match_all re_title out))"

definition bullet :: jsstring where
  "bullet = [32, 8226, 32]"

definition result_message :: "jsstring \<Rightarrow> jsval \<Rightarrow> jsstring" where
  "result_message name out =
     (case out of
        JStr s \<Rightarrow>
          if name = str ''arxiv_search'' then
            (let paperCount = length (match_all re_entry s)
             in if 0 < length (paperTitles s)
                then str ''Found '' @ show_nat paperCount @ str '' papers. Top: ''
                       @ join bullet (paperTitles s)
                else str ''Found '' @ show_nat paperCount @ str '' papers'')
          else name @ str '' complete''
      | _ \<Rightarrow> name @ str '' complete'')"

text \<open>
  One call of \<open>transform\<close>: from the flag \<open>llmStarted\<close> and a chunk to the new flag and the
  events enqueued, in order, or to the value raised. The string conversions of
  \<open>chunk.toolName\<close> and \<open>chunk.error\<close> are the operations that can raise; they come
  before the event is enqueued. What is enqueued is the encoded line of the event
  (\<open>encodeEvent\<close> below).
\<close>

definition transform :: "bool \<Rightarrow> chunk \<Rightarrow> (bool \<times> StreamEvent list) outcome" where
  "transform llmStarted c =
     (if type c = str ''start'' \<or> type c = str ''start-step'' \<or> type c = str ''text-start''
      then
        (if \<not> llmStarted
         then Returned
                (True, [LlmStart MODEL_NAME (str ''Analyzing with '' @ MODEL_NAME @ str ''...'')])
         else Returned (llmStarted, []))
      else if type c = str ''tool-call'' then
        (case toolName_of c of
           Raised e \<Rightarrow> Raised e
         | Returned name \<Rightarrow>
             Returned
               (llmStarted,
                [ToolCall name (str ''Calling '' @ name @ str ''...'') (toolCallId_of c)
                   (input c)]))
      else if type c = str ''tool-result'' then
        (case toolName_of c of
           Raised e \<Rightarrow> Raised e
         | Returned name \<Rightarrow>
             Returned
               (llmStarted,
                [ToolResult name (result_message name (output' c)) (toolCallId_of c)
                   (input c) (output' c)]))
      else if type c = str ''text-delta'' then
        Returned (llmStarted, [Token (case text' c of JStr s \<Rightarrow> s | _ \<Rightarrow> [])])
      else if type c = str ''finish'' then
        Returned (llmStarted, [Complete (str ''Analysis complete'')])
      else if type c = str ''tool-error'' \<or> type c = str ''error'' then
        (case js_String (error c) of
           Raised e \<Rightarrow> Raised e
         | Returned detail \<Rightarrow>
             Returned
               (llmStarted,
                [Error (if type c = str ''tool-error''
                        then str ''Tool error: '' @ detail
                        else str ''Error: '' @ detail)]))
      else Returned (llmStarted, []))"

text \<open>
  \<open>pipeThrough\<close>: the chunks of one request go through \<open>transform\<close> in arrival order, the
  flag starting at \<open>false\<close>; the output is what was enqueued, in order. When \<open>transform\<close>
  raises, the stream is errored and no later chunk is transformed.
\<close>

fun run :: "bool \<Rightarrow> chunk list \<Rightarrow> StreamEvent list" where
  "run s [] = []"
| "run s (c # cs) =
     (case transform s c of
        Raised e \<Rightarrow> []
      | Returned (s', out) \<Rightarrow> out @ run s' cs)"

definition pipeThrough :: "chunk list \<Rightarrow> StreamEvent list" where
  "pipeThrough cs = run False cs"


section \<open>Observations on chunk and event sequences\<close>

fun is_llm_start :: "StreamEvent \<Rightarrow> bool" where
  "is_llm_start (LlmStart m msg) = True"
| "is_llm_start e = False"

fun is_token :: "StreamEvent \<Rightarrow> bool" where
  "is_token (Token t) = True"
| "is_token e = False"

fun is_terminal :: "StreamEvent \<Rightarrow> bool" where
  "is_terminal (Complete m) = True"
| "is_terminal (Error m) = True"
| "is_terminal e = False"

fun is_error :: "StreamEvent \<Rightarrow> bool" where
  "is_error (Error m) = True"
| "is_error e = False"

definition is_start_signal :: "chunk \<Rightarrow> bool" where
  "is_start_signal c \<longleftrightarrow>
     type c = str ''start'' \<or> type c = str ''start-step'' \<or> type c = str ''text-start''"

definition is_text_delta :: "chunk \<Rightarrow> bool" where
  "is_text_delta c \<longleftrightarrow> type c = str ''text-delta''"

definition is_terminal_chunk :: "chunk \<Rightarrow> bool" where
  "is_terminal_chunk c \<longleftrightarrow>
     type c = str ''finish'' \<or> type c = str ''tool-error'' \<or> type c = str ''error''"

definition is_error_chunk :: "chunk \<Rightarrow> bool" where
  "is_error_chunk c \<longleftrightarrow> type c = str ''tool-error'' \<or> type c = str ''error''"

definition known_type :: "jsstring \<Rightarrow> bool" where
  "known_type t \<longleftrightarrow>
     t = str ''start'' \<or> t = str ''start-step'' \<or> t = str ''text-start''
     \<or> t = str ''tool-call'' \<or> t = str ''tool-result'' \<or> t = str ''text-delta''
     \<or> t = str ''finish'' \<or> t = str ''tool-error'' \<or> t = str ''error''"

text \<open>No \<open>token\<close> event is followed by an \<open>llm_start\<close> event.\<close>

fun llm_start_first :: "StreamEvent list \<Rightarrow> bool" where
  "llm_start_first [] = True"
| "llm_start_first (e # es) =
     (if is_token e then list_all (\<lambda>x. \<not> is_llm_start x) es \<and> llm_start_first es
      else llm_start_first es)"

text \<open>
  No \<open>text-delta\<close> chunk arrives before the first generation-beginning chunk, if there
  is one.
\<close>

fun no_text_before_start :: "chunk list \<Rightarrow> bool" where
  "no_text_before_start [] = True"
| "no_text_before_start (c # cs) =
     (if is_start_signal c then True
      else if is_text_delta c then list_all (\<lambda>x. \<not> is_start_signal x) cs
      else no_text_before_start cs)"

text \<open>The last event is \<open>complete\<close> or \<open>error\<close> and no other event is.\<close>

definition terminates_once :: "StreamEvent list \<Rightarrow> bool" where
  "terminates_once out \<longleftrightarrow>
     out \<noteq> [] \<and> is_terminal (last out) \<and> list_all (\<lambda>e. \<not> is_terminal e) (butlast out)"

text \<open>The last chunk is \<open>finish\<close>, \<open>tool-error\<close> or \<open>error\<close> and no other chunk is.\<close>

definition terminal_chunk_last :: "chunk list \<Rightarrow> bool" where
  "terminal_chunk_last cs \<longleftrightarrow>
     cs \<noteq> [] \<and> is_terminal_chunk (last cs) \<and> list_all (\<lambda>c. \<not> is_terminal_chunk c) (butlast cs)"

text \<open>
  A chunk on which \<open>transform\<close> raises: one whose tool name or error detail has no string
  conversion, in an arm that converts it.
\<close>

definition raises :: "chunk \<Rightarrow> bool" where
  "raises c \<longleftrightarrow>
     ((type c = str ''tool-call'' \<or> type c = str ''tool-result'') \<and> \<not> returns (toolName_of c))
     \<or> (is_error_chunk c \<and> \<not> returns (js_String (error c)))"

text \<open>The chunks that are transformed: those before the first on which \<open>transform\<close> raises.\<close>

definition transformed :: "chunk list \<Rightarrow> chunk list" where
  "transformed cs = takeWhile (\<lambda>c. \<not> raises c) cs"

text \<open>
  Several requests served at once: every call of the handler declares its own
  \<open>llmStarted\<close> and its own \<open>TransformStream\<close>, so the state is per request: its flag, or
  \<open>None\<close> once its stream is errored. The chunks of all requests arrive interleaved, each
  tagged with its request, and each event goes to the stream of the request whose chunk
  produced it.
\<close>

fun serve :: "('r \<Rightarrow> bool option) \<Rightarrow> ('r \<times> chunk) list \<Rightarrow> ('r \<times> StreamEvent) list" where
  "serve st [] = []"
| "serve st ((r, c) # tr) =
     (case st r of
        None \<Rightarrow> serve st tr
      | Some flag \<Rightarrow>
          (case transform flag c of
             Raised e \<Rightarrow> serve (st(r := None)) tr
           | Returned (s', out) \<Rightarrow> map (Pair r) out @ serve (st(r := Some s')) tr))"

text \<open>A chunk with the given discriminant and no other property.\<close>

definition bare :: "jsstring \<Rightarrow> chunk" where
  "bare t = \<lparr>type = t, toolName = JUndefined, toolCallId = JUndefined, input = JUndefined,
     output' = JUndefined, text' = JUndefined, error = JUndefined\<rparr>"

text \<open>The \<open>message\<close> field of an event (\<open>token\<close> has none).\<close>

fun message_of :: "StreamEvent \<Rightarrow> jsstring option" where
  "message_of (ToolCall t m i inp) = Some m"
| "message_of (ToolResult t m i inp out) = Some m"
| "message_of (LlmStart mo m) = Some m"
| "message_of (Token t) = None"
| "message_of (Complete m) = Some m"
| "message_of (Error m) = Some m"


section \<open>The summary of a literature search, described directly\<close>

text \<open>The number of positions of \<open>s\<close> at which the non-empty string \<open>p\<close> occurs.\<close>

fun occurrences :: "jsstring \<Rightarrow> jsstring \<Rightarrow> nat" where
  "occurrences p [] = 0"
| "occurrences p (c # cs) = (if prefix p (c # cs) then 1 else 0) + occurrences p cs"

text \<open>
  The title-delimited substrings of \<open>s\<close>, left to right: the text between an opening
  \<open><title>\<close> and the closing \<open></title>\<close> that follows it, where that text is not empty
  and holds no \<open><\<close>; the search resumes after the closing tag.
\<close>

function title_contents :: "jsstring \<Rightarrow> jsstring list" where
  "title_contents [] = []"
| "title_contents (c # cs) =
     (if prefix (str ''<title>'') (c # cs)
         \<and> takeWhile (\<lambda>u. u \<noteq> 60) (drop 7 (c # cs)) \<noteq> []
         \<and> prefix (str ''</title>'')
             (drop (7 + length (takeWhile (\<lambda>u. u \<noteq> 60) (drop 7 (c # cs)))) (c # cs))
      then takeWhile (\<lambda>u. u \<noteq> 60) (drop 7 (c # cs))
           # title_contents
               (drop (15 + length (takeWhile (\<lambda>u. u \<noteq> 60) (drop 7 (c # cs)))) (c # cs))
      else title_contents cs)"
  by pat_completeness auto
termination
  by (relation "measure length") auto

text \<open>Every run of white space becomes one space.\<close>

function collapse_ws :: "jsstring \<Rightarrow> jsstring" where
  "collapse_ws [] = []"
| "collapse_ws (c # cs) =
     (if is_ws c then 32 # collapse_ws (dropWhile is_ws cs) else c # collapse_ws cs)"
  by pat_completeness auto
termination
  by (relation "measure length") (auto simp: length_dropWhile_le less_Suc_eq_le)

text \<open>The message the specification gives for the raw text \<open>s\<close> of a literature search.\<close>

definition summary :: "jsstring \<Rightarrow> jsstring" where
  "summary s =
     (let M = occurrences (str ''<entry>'') s;
          tops = map (\<lambda>t. collapse_ws (trim t)) (take 3 (drop 1 (title_contents s)))
      in if tops \<noteq> []
         then str ''Found '' @ show_nat M @ str '' papers. Top: '' @ join bullet tops
         else str ''Found '' @ show_nat M @ str '' papers'')"

section \<open>The literature fetcher\<close>

text \<open>The parts of a \<open>Response\<close> the fetcher reads; \<open>body\<close> is what \<open>text()\<close> gives.\<close>

record response =
  ok :: bool
  status :: nat
  body :: "jsstring outcome"

definition arxiv_url :: "jsstring \<Rightarrow> int \<Rightarrow> jsstring" where
  "arxiv_url q maxResults =
     str ''http://export.arxiv.org/api/query?search_query=all:'' @ q
     @ str ''&max_results='' @ show_int maxResults @ str ''&sortBy=relevance''"

text \<open>
  \<open>fetchArxiv\<close>, given the two platform functions it calls: \<open>encodeURIComponent\<close>, which
  raises on an ill-formed string, and \<open>fetch\<close>, which gives the response to a request or
  rejects. An argument \<open>maxResults\<close> left out takes the default 5.
\<close>

definition fetchArxiv ::
  "(jsstring \<Rightarrow> jsstring outcome) \<Rightarrow> (jsstring \<Rightarrow> response outcome)
     \<Rightarrow> jsstring \<Rightarrow> int option \<Rightarrow> jsstring outcome" where
  "fetchArxiv encodeURIComponent fetch query maxResults =
     (case encodeURIComponent query of
        Raised e \<Rightarrow> Raised e
      | Returned q \<Rightarrow>
          (case fetch (arxiv_url q (case maxResults of None \<Rightarrow> 5 | Some n \<Rightarrow> n)) of
             Raised e \<Rightarrow> Raised e
           | Returned r \<Rightarrow>
               if \<not> ok r
               then Returned (str ''Error: ArXiv API returned status '' @ show_nat (status r))
               else body r))"


section \<open>The wire format\<close>

subsection \<open>\<open>JSON.stringify\<close>\<close>

text \<open>
  Plain data is serialized compactly. A string is quoted unit by unit: the quote, the
  backslash and the control characters are escaped, a surrogate that is not half of a pair
  is written as a \<open>\u\<close> escape, everything else is copied.
\<close>

definition hexdigit :: "nat \<Rightarrow> nat" where
  "hexdigit d = (if d < 10 then 48 + d else 87 + d)"

definition hex4 :: "nat \<Rightarrow> jsstring" where
  "hex4 c = [hexdigit (c div 4096 mod 16), hexdigit (c div 256 mod 16),
             hexdigit (c div 16 mod 16), hexdigit (c mod 16)]"

definition is_high :: "nat \<Rightarrow> bool" where
  "is_high c \<longleftrightarrow> 55296 \<le> c \<and> c \<le> 56319"

definition is_low :: "nat \<Rightarrow> bool" where
  "is_low c \<longleftrightarrow> 56320 \<le> c \<and> c \<le> 57343"

definition esc :: "nat \<Rightarrow> jsstring" where
  "esc c =
     (if c = 8 then [92, 98]
      else if c = 9 then [92, 116]
      else if c = 10 then [92, 110]
      else if c = 12 then [92, 102]
      else if c = 13 then [92, 114]
      else if c = 34 then [92, 34]
      else if c = 92 then [92, 92]
      else if c < 32 \<or> is_high c \<or> is_low c then [92, 117] @ hex4 c
      else [c])"

fun quote_body :: "jsstring \<Rightarrow> jsstring" where
  "quote_body [] = []"
| "quote_body [c] = esc c"
| "quote_body (c # d # cs) =
     (if is_high c \<and> is_low d then c # d # quote_body cs else esc c @ quote_body (d # cs))"

definition quote :: "jsstring \<Rightarrow> jsstring" where
  "quote s = 34 # quote_body s @ [34]"

text \<open>
  \<open>ser v\<close> is the text of \<open>v\<close> inside a document: \<open>undefined\<close> in an array is written
  \<open>null\<close>, a property whose value is \<open>undefined\<close> is left out.
\<close>

fun ser :: "jsval \<Rightarrow> jsstring" where
  "ser JUndefined = str ''null''"
| "ser JNull = str ''null''"
| "ser (JBool b) = (if b then str ''true'' else str ''false'')"
| "ser (JNum n) = show_int n"
| "ser (JStr s) = quote s"
| "ser (JArr xs) = 91 # join [44] (map ser xs) @ [93]"
| "ser (JObj ps) =
     123 # join [44] (map (\<lambda>p. quote (fst p) @ 58 # ser (snd p))
                        (filter (\<lambda>p. snd p \<noteq> JUndefined) ps)) @ [125]"

text \<open>\<open>JSON.stringify(v)\<close>: \<open>None\<close> is the result \<open>undefined\<close>.\<close>

definition JSON_stringify :: "jsval \<Rightarrow> jsstring option" where
  "JSON_stringify v = (if v = JUndefined then None else Some (ser v))"

subsection \<open>\<open>JSON.parse\<close>\<close>

text \<open>
  The texts read are those whose numbers are integers in plain decimal notation: a number
  with a fraction or an exponent has no value in this model and is not read.
\<close>

definition is_json_ws :: "nat \<Rightarrow> bool" where
  "is_json_ws c \<longleftrightarrow> c = 32 \<or> c = 9 \<or> c = 10 \<or> c = 13"

definition skip_ws :: "jsstring \<Rightarrow> jsstring" where
  "skip_ws s = dropWhile is_json_ws s"

definition hex_value :: "nat \<Rightarrow> nat option" where
  "hex_value c =
     (if 48 \<le> c \<and> c \<le> 57 then Some (c - 48)
      else if 97 \<le> c \<and> c \<le> 102 then Some (c - 87)
      else if 65 \<le> c \<and> c \<le> 70 then Some (c - 55)
      else None)"

fun hex4_value :: "jsstring \<Rightarrow> nat option" where
  "hex4_value [a, b, c, d] =
     (case (hex_value a, hex_value b, hex_value c, hex_value d) of
        (Some w, Some x, Some y, Some z) \<Rightarrow> Some (((w * 16 + x) * 16 + y) * 16 + z)
      | _ \<Rightarrow> None)"
| "hex4_value s = None"

definition unescape :: "nat \<Rightarrow> nat option" where
  "unescape e =
     (if e = 34 then Some 34
      else if e = 92 then Some 92
      else if e = 47 then Some 47
      else if e = 98 then Some 8
      else if e = 102 then Some 12
      else if e = 110 then Some 10
      else if e = 114 then Some 13
      else if e = 116 then Some 9
      else None)"

text \<open>The characters of a string after its opening quote, and what follows its closing quote.\<close>

function parse_chars :: "jsstring \<Rightarrow> (jsstring \<times> jsstring) option" where
  "parse_chars [] = None"
| "parse_chars (c # cs) =
     (if c = 34 then Some ([], cs)
      else if c = 92 then
        (case cs of
           [] \<Rightarrow> None
         | e # es \<Rightarrow>
             if e = 117 then
               (case hex4_value (take 4 es) of
                  None \<Rightarrow> None
                | Some u \<Rightarrow> map_option (\<lambda>p. (u # fst p, snd p)) (parse_chars (drop 4 es)))
             else
               (case unescape e of
                  None \<Rightarrow> None
                | Some u \<Rightarrow> map_option (\<lambda>p. (u # fst p, snd p)) (parse_chars es)))
      else if c < 32 then None
      else map_option (\<lambda>p. (c # fst p, snd p)) (parse_chars cs))"
  by pat_completeness auto
termination
  by (relation "measure length") auto

definition is_digit :: "nat \<Rightarrow> bool" where
  "is_digit c \<longleftrightarrow> 48 \<le> c \<and> c \<le> 57"

definition digits_value :: "jsstring \<Rightarrow> nat" where
  "digits_value ds = foldl (\<lambda>a c. 10 * a + (c - 48)) 0 ds"

definition parse_digits :: "jsstring \<Rightarrow> (nat \<times> jsstring) option" where
  "parse_digits s =
     (let ds = takeWhile is_digit s; r = dropWhile is_digit s
      in if ds = [] \<or> (1 < length ds \<and> hd ds = 48) then None
         else if r \<noteq> [] \<and> (hd r = 46 \<or> hd r = 101 \<or> hd r = 69) then None
         else Some (digits_value ds, r))"

definition parse_number :: "jsstring \<Rightarrow> (int \<times> jsstring) option" where
  "parse_number s =
     (case s of
        [] \<Rightarrow> None
      | c # cs \<Rightarrow>
          if c = 45 then map_option (\<lambda>p. (- int (fst p), snd p)) (parse_digits cs)
          else map_option (\<lambda>p. (int (fst p), snd p)) (parse_digits s))"

text \<open>
  An object under construction: a property is created at the end, or its value replaced
  where it stands when the name is already there.
\<close>

fun put :: "jsstring \<Rightarrow> jsval \<Rightarrow> (jsstring \<times> jsval) list \<Rightarrow> (jsstring \<times> jsval) list" where
  "put k v [] = [(k, v)]"
| "put k v (p # ps) = (if fst p = k then (k, v) # ps else p # put k v ps)"

text \<open>A value that is neither an object nor an array, from its first character on.\<close>

definition parse_atom :: "jsstring \<Rightarrow> (jsval \<times> jsstring) option" where
  "parse_atom s =
     (case s of
        [] \<Rightarrow> None
      | c # cs \<Rightarrow>
          if c = 34 then map_option (\<lambda>p. (JStr (fst p), snd p)) (parse_chars cs)
          else if prefix (str ''true'') s then Some (JBool True, drop 4 s)
          else if prefix (str ''false'') s then Some (JBool False, drop 5 s)
          else if prefix (str ''null'') s then Some (JNull, drop 4 s)
          else map_option (\<lambda>p. (JNum (fst p), snd p)) (parse_number s))"

text \<open>The name of a member and its colon.\<close>

definition parse_key :: "jsstring \<Rightarrow> (jsstring \<times> jsstring) option" where
  "parse_key s =
     (case skip_ws s of
        [] \<Rightarrow> None
      | q # cs \<Rightarrow>
          if q \<noteq> 34 then None
          else
            (case parse_chars cs of
               None \<Rightarrow> None
             | Some (k, r) \<Rightarrow>
                 (case skip_ws r of
                    [] \<Rightarrow> None
                  | d # ds \<Rightarrow> if d \<noteq> 58 then None else Some (k, ds))))"

text \<open>
  Recursive descent. The first argument bounds the number of calls still allowed;
  \<open>JSON_parse\<close> allows one more than the text has characters, and the text of a value
  needs no more than it has characters (\<open>calls_le_length\<close> below).
\<close>

fun parse_value :: "nat \<Rightarrow> jsstring \<Rightarrow> (jsval \<times> jsstring) option"
  and parse_elements :: "nat \<Rightarrow> jsstring \<Rightarrow> jsval list \<Rightarrow> (jsval \<times> jsstring) option"
  and parse_members ::
    "nat \<Rightarrow> jsstring \<Rightarrow> (jsstring \<times> jsval) list \<Rightarrow> (jsval \<times> jsstring) option"
where
  "parse_value 0 s = None"
| "parse_value (Suc f) s =
     (case skip_ws s of
        [] \<Rightarrow> None
      | c # cs \<Rightarrow>
          if c = 123 then
            (case skip_ws cs of
               [] \<Rightarrow> None
             | d # ds \<Rightarrow> if d = 125 then Some (JObj [], ds) else parse_members f cs [])
          else if c = 91 then
            (case skip_ws cs of
               [] \<Rightarrow> None
             | d # ds \<Rightarrow> if d = 93 then Some (JArr [], ds) else parse_elements f cs [])
          else parse_atom (c # cs))"
| "parse_elements 0 s acc = None"
| "parse_elements (Suc f) s acc =
     (case parse_value f s of
        None \<Rightarrow> None
      | Some (v, r) \<Rightarrow>
          (case skip_ws r of
             [] \<Rightarrow> None
           | d # ds \<Rightarrow>
               if d = 44 then parse_elements f ds (acc @ [v])
               else if d = 93 then Some (JArr (acc @ [v]), ds)
               else None))"
| "parse_members 0 s acc = None"
| "parse_members (Suc f) s acc =
     (case parse_key s of
        None \<Rightarrow> None
      | Some (k, ds) \<Rightarrow>
          (case parse_value f ds of
             None \<Rightarrow> None
           | Some (v, r) \<Rightarrow>
               (case skip_ws r of
                  [] \<Rightarrow> None
                | e # es \<Rightarrow>
                    if e = 44 then parse_members f es (put k v acc)
                    else if e = 125 then Some (JObj (put k v acc), es)
                    else None)))"

text \<open>\<open>JSON.parse\<close>: \<open>None\<close> is the \<open>SyntaxError\<close>.\<close>

definition JSON_parse :: "jsstring \<Rightarrow> jsval option" where
  "JSON_parse s =
     (case parse_value (Suc (length s)) s of
        None \<Rightarrow> None
      | Some (v, r) \<Rightarrow> if skip_ws r = [] then Some v else None)"

subsection \<open>Data that a document represents\<close>

text \<open>
  Plain data without \<open>undefined\<close> inside: \<open>null\<close>, booleans, safe integers, strings,
  arrays of such data, and objects, whose property names are distinct, of such data.
\<close>

fun plain :: "jsval \<Rightarrow> bool" where
  "plain JUndefined = False"
| "plain JNull = True"
| "plain (JBool b) = True"
| "plain (JNum n) = (\<bar>n\<bar> \<le> 9007199254740991)"
| "plain (JStr s) = True"
| "plain (JArr xs) = list_all plain xs"
| "plain (JObj ps) = (distinct (map fst ps) \<and> list_all (\<lambda>p. plain (snd p)) ps)"

text \<open>What may follow a number in a text: nothing, or a character that does not continue it.\<close>

definition ends_number :: "jsstring \<Rightarrow> bool" where
  "ends_number r \<longleftrightarrow>
     (case r of [] \<Rightarrow> True | c # cs \<Rightarrow> \<not> is_digit c \<and> c \<noteq> 46 \<and> c \<noteq> 101 \<and> c \<noteq> 69)"

text \<open>The number of calls the parser makes on the text of a value.\<close>

fun calls :: "jsval \<Rightarrow> nat" where
  "calls (JArr xs) = Suc (sum_list (map (\<lambda>x. Suc (calls x)) xs))"
| "calls (JObj ps) = Suc (sum_list (map (\<lambda>p. Suc (calls (snd p))) ps))"
| "calls v = 1"

text \<open>A character a value can start with, as the parser sees it after a bracket.\<close>

definition starts_value :: "nat \<Rightarrow> bool" where
  "starts_value c \<longleftrightarrow> \<not> is_json_ws c \<and> c \<noteq> 93 \<and> c \<noteq> 125"

text \<open>The text of \<open>v\<close>, whatever follows it, is read back as \<open>v\<close>.\<close>

definition reads_back :: "jsval \<Rightarrow> bool" where
  "reads_back v \<longleftrightarrow>
     (\<forall>f rest. calls v \<le> f \<longrightarrow> ends_number rest \<longrightarrow>
        parse_value f (ser v @ rest) = Some (v, rest))"

text \<open>The text of one member of an object.\<close>

definition member :: "jsstring \<times> jsval \<Rightarrow> jsstring" where
  "member p = quote (fst p) @ 58 # ser (snd p)"

section \<open>Events on the wire\<close>

text \<open>
  The object a \<open>StreamEvent\<close> is, with its properties in the order in which the
  transformer writes them; an absent optional field is a property whose value is
  \<open>undefined\<close>.
\<close>

definition opt :: "jsstring option \<Rightarrow> jsval" where
  "opt x = (case x of None \<Rightarrow> JUndefined | Some s \<Rightarrow> JStr s)"

fun event_object :: "StreamEvent \<Rightarrow> (jsstring \<times> jsval) list" where
  "event_object (ToolCall t m i inp) =
     [(str ''type'', JStr (str ''tool_call'')), (str ''tool'', JStr t),
      (str ''toolCallId'', opt i), (str ''input'', inp), (str ''message'', JStr m)]"
| "event_object (ToolResult t m i inp out) =
     [(str ''type'', JStr (str ''tool_result'')), (str ''tool'', JStr t),
      (str ''toolCallId'', opt i), (str ''input'', inp), (str ''output'', out),
      (str ''message'', JStr m)]"
| "event_object (LlmStart mo m) =
     [(str ''type'', JStr (str ''llm_start'')), (str ''model'', JStr mo),
      (str ''message'', JStr m)]"
| "event_object (Token c) = [(str ''type'', JStr (str ''token'')), (str ''content'', JStr c)]"
| "event_object (Complete m) =
     [(str ''type'', JStr (str ''complete'')), (str ''message'', JStr m)]"
| "event_object (Error m) = [(str ''type'', JStr (str ''error'')), (str ''message'', JStr m)]"

text \<open>\<open>JSON.stringify(event) + '\n'\<close>\<close>

definition encodeEvent :: "StreamEvent \<Rightarrow> jsstring" where
  "encodeEvent e =
     (case JSON_stringify (JObj (event_object e)) of
        None \<Rightarrow> str ''undefined''
      | Some line \<Rightarrow> line) @ [10]"

text \<open>The record of an event: the object with the properties that are present.\<close>

definition record_of :: "StreamEvent \<Rightarrow> jsval" where
  "record_of e = JObj (filter (\<lambda>p. snd p \<noteq> JUndefined) (event_object e))"

text \<open>\<open>v.k\<close> for plain data: the property of an object, \<open>undefined\<close> elsewhere.\<close>

definition property :: "jsval \<Rightarrow> jsstring \<Rightarrow> jsval" where
  "property v k =
     (case v of
        JObj ps \<Rightarrow> (case map_of ps k of None \<Rightarrow> JUndefined | Some x \<Rightarrow> x)
      | _ \<Rightarrow> JUndefined)"

text \<open>
  An object read as the \<open>StreamEvent\<close> it is, by the type declaration: the discriminant
  selects the variant, the required fields are strings, \<open>toolCallId\<close> is a string or
  absent, \<open>input\<close> and \<open>output\<close> are anything.
\<close>

definition the_string :: "jsval \<Rightarrow> jsstring option" where
  "the_string v = (case v of JStr s \<Rightarrow> Some s | _ \<Rightarrow> None)"

definition the_opt_string :: "jsval \<Rightarrow> jsstring option option" where
  "the_opt_string v =
     (case v of JUndefined \<Rightarrow> Some None | JStr s \<Rightarrow> Some (Some s) | _ \<Rightarrow> None)"

definition event_of :: "jsval \<Rightarrow> StreamEvent option" where
  "event_of v =
     (case the_string (property v (str ''type'')) of
        None \<Rightarrow> None
      | Some t \<Rightarrow>
          if t = str ''tool_call'' then
            (case (the_string (property v (str ''tool'')), the_string (property v (str ''message'')),
                   the_opt_string (property v (str ''toolCallId''))) of
               (Some tn, Some m, Some i) \<Rightarrow> Some (ToolCall tn m i (property v (str ''input'')))
             | _ \<Rightarrow> None)
          else if t = str ''tool_result'' then
            (case (the_string (property v (str ''tool'')), the_string (property v (str ''message'')),
                   the_opt_string (property v (str ''toolCallId''))) of
               (Some tn, Some m, Some i) \<Rightarrow>
                 Some (ToolResult tn m i (property v (str ''input'')) (property v (str ''output'')))
             | _ \<Rightarrow> None)
          else if t = str ''llm_start'' then
            (case (the_string (property v (str ''model'')), the_string (property v (str ''message''))) of
               (Some mo, Some m) \<Rightarrow> Some (LlmStart mo m)
             | _ \<Rightarrow> None)
          else if t = str ''token'' then
            map_option Token (the_string (property v (str ''content'')))
          else if t = str ''complete'' then
            map_option Complete (the_string (property v (str ''message'')))
          else if t = str ''error'' then
            map_option Error (the_string (property v (str ''message'')))
          else None)"

text \<open>Decoding a line: \<open>JSON.parse\<close>, the result taken as a \<open>StreamEvent\<close>.\<close>

definition decode :: "jsstring \<Rightarrow> StreamEvent option" where
  "decode line = (case JSON_parse line of None \<Rightarrow> None | Some v \<Rightarrow> event_of v)"

text \<open>
  An event a record can represent: a payload that is present is data without
  \<open>undefined\<close> inside.
\<close>

fun representable :: "StreamEvent \<Rightarrow> bool" where
  "representable (ToolCall t m i inp) = (inp = JUndefined \<or> plain inp)"
| "representable (ToolResult t m i inp out) =
     ((inp = JUndefined \<or> plain inp) \<and> (out = JUndefined \<or> plain out))"
| "representable e = True"


section \<open>The client reducer\<close>

datatype status = StatusIdle | StatusLoading | StatusComplete | StatusError

record ActivityItem =
  item_id :: jsstring
  item_type :: jsstring
  item_message :: jsval
  timestamp :: nat

text \<open>The display state: the state variables \<open>response\<close>, \<open>activity\<close> and \<open>status\<close> that
  \<open>handleChunk\<close> sets.\<close>

record app_state =
  response :: jsstring
  activity :: "ActivityItem list"
  status' :: status

text \<open>
  \<open>handleChunk\<close>, as the state it leaves; \<open>now\<close> is the clock reading of the call. A chunk
  that is a string is parsed, and the chunk is given back untouched when that fails; any
  other chunk is taken as the event. Reading \<open>type\<close> of \<open>null\<close> or \<open>undefined\<close> raises a
  \<open>TypeError\<close>, and so does appending a \<open>content\<close> that has no string conversion. The
  state updaters run in the order in which they are queued.
\<close>

definition item :: "nat \<Rightarrow> jsstring \<Rightarrow> jsval \<Rightarrow> ActivityItem" where
  "item now t event =
     \<lparr>item_id = t @ str ''-'' @ show_nat now, item_type = t,
      item_message = property event (str ''message''), timestamp = now\<rparr>"

definition handleChunk :: "nat \<Rightarrow> jsval \<Rightarrow> app_state \<Rightarrow> app_state outcome" where
  "handleChunk now chunk st =
     (case (case chunk of JStr s \<Rightarrow> JSON_parse s | _ \<Rightarrow> Some chunk) of
        None \<Rightarrow> Returned st
      | Some event \<Rightarrow>
          if event = JNull \<or> event = JUndefined then Raised TypeError
          else
            (case property event (str ''type'') of
               JStr t \<Rightarrow>
                 if t = str ''tool_call'' \<or> t = str ''tool_result'' \<or> t = str ''llm_start''
                 then Returned (st\<lparr>activity := activity st @ [item now t event]\<rparr>)
                 else if t = str ''token''
                 then
                   (case js_String (property event (str ''content'')) of
                      Raised e \<Rightarrow> Raised e
                    | Returned content \<Rightarrow> Returned (st\<lparr>response := response st @ content\<rparr>))
                 else if t = str ''complete''
                 then Returned
                        (st\<lparr>activity := activity st @ [item now (str ''complete'') event],
                            status' := StatusComplete\<rparr>)
                 else if t = str ''error''
                 then Returned
                        (st\<lparr>activity := activity st @ [item now (str ''error'') event],
                            status' := StatusError\<rparr>)
                 else Returned st
             | _ \<Rightarrow> Returned st))"

text \<open>The chunks of a stream, each with the clock reading of its call, handled in order.\<close>

fun consume :: "(nat \<times> jsval) list \<Rightarrow> app_state \<Rightarrow> app_state outcome" where
  "consume [] st = Returned st"
| "consume ((now, chunk) # rest) st =
     (case handleChunk now chunk st of
        Raised e \<Rightarrow> Raised e
      | Returned st' \<Rightarrow> consume rest st')"

text \<open>
  A chunk delivers an event when it is the record of the event, already parsed, or the
  line that encodes a representable event.
\<close>

definition delivers :: "jsval \<Rightarrow> StreamEvent \<Rightarrow> bool" where
  "delivers chunk e \<longleftrightarrow>
     chunk = record_of e \<or> (representable e \<and> chunk = JStr (encodeEvent e))"

fun delivers_all :: "jsval list \<Rightarrow> StreamEvent list \<Rightarrow> bool" where
  "delivers_all [] [] = True"
| "delivers_all (c # cs) (e # es) = (delivers c e \<and> delivers_all cs es)"
| "delivers_all cs es = False"

text \<open>The \<open>content\<close> of a \<open>token\<close> event; other events have none.\<close>

fun content_of :: "StreamEvent \<Rightarrow> jsstring" where
  "content_of (Token c) = c"
| "content_of e = []"

text \<open>The object keys of a value.\<close>

definition keys_of :: "jsval \<Rightarrow> jsstring list" where
  "keys_of v = (case v of JObj ps \<Rightarrow> map fst ps | _ \<Rightarrow> [])"


section \<open>Facts about the transformer\<close>

lemma transform_start:
  "is_start_signal c \<Longrightarrow> transform s c =
     Returned (True, if s then [] else [LlmStart MODEL_NAME (str ''Analyzing with '' @ MODEL_NAME @ str ''...'')])"
  by (auto simp: transform_def is_start_signal_def)

lemma start_not_text: "is_start_signal c \<Longrightarrow> \<not> is_text_delta c"
  by (auto simp: is_start_signal_def is_text_delta_def str_def)

lemma returns_iff: "returns x \<longleftrightarrow> (\<exists>y. x = Returned y)"
  by (cases x) auto

lemma transform_returns: "returns (transform s c) \<longleftrightarrow> \<not> raises c"
  by (auto simp: transform_def raises_def is_error_chunk_def returns_iff str_def
      split: outcome.splits)

lemma transform_raises: "raises c \<Longrightarrow> \<exists>e. transform s c = Raised e"
  using transform_returns[of s c] by (cases "transform s c") auto

lemma transform_not_raises: "\<not> raises c \<Longrightarrow> \<exists>s' out. transform s c = Returned (s', out)"
  using transform_returns[of s c] by (cases "transform s c") auto

lemma transform_state:
  "\<not> is_start_signal c \<Longrightarrow> transform s c = Returned (s', out) \<Longrightarrow> s' = s"
  by (auto simp: transform_def is_start_signal_def split: if_splits outcome.splits)

lemma transform_no_llm_start:
  "\<not> is_start_signal c \<Longrightarrow> transform s c = Returned (s', out) \<Longrightarrow>
   list_all (\<lambda>e. \<not> is_llm_start e) out"
  by (auto simp: transform_def is_start_signal_def split: if_splits outcome.splits)

lemma transform_text_delta:
  "is_text_delta c \<Longrightarrow> \<exists>t. transform s c = Returned (s, [Token t])"
  by (auto simp: transform_def is_text_delta_def str_def)

lemma text_delta_not_raises: "is_text_delta c \<Longrightarrow> \<not> raises c"
  using transform_text_delta[of c False] transform_returns[of False c] by auto

lemma transform_no_token:
  "\<not> is_text_delta c \<Longrightarrow> transform s c = Returned (s', out) \<Longrightarrow>
   list_all (\<lambda>e. \<not> is_token e) out"
  by (auto simp: transform_def is_text_delta_def split: if_splits outcome.splits)

lemma transform_terminal:
  "is_terminal_chunk c \<Longrightarrow> transform s c = Returned (s', out) \<Longrightarrow>
   s' = s \<and> (\<exists>e. is_terminal e \<and> out = [e])"
  by (auto simp: transform_def is_terminal_chunk_def str_def split: if_splits outcome.splits)

lemma transform_not_terminal:
  "\<not> is_terminal_chunk c \<Longrightarrow> transform s c = Returned (s', out) \<Longrightarrow>
   list_all (\<lambda>e. \<not> is_terminal e) out"
  by (auto simp: transform_def is_terminal_chunk_def split: if_splits outcome.splits)

lemma transformed_Cons:
  "transformed (c # cs) = (if raises c then [] else c # transformed cs)"
  by (simp add: transformed_def)

lemma transformed_all: "list_all (\<lambda>c. \<not> raises c) (transformed cs)"
  unfolding transformed_def list_all_iff using set_takeWhileD by fastforce

lemma transformed_id: "list_all (\<lambda>c. \<not> raises c) cs \<Longrightarrow> transformed cs = cs"
  unfolding transformed_def list_all_iff by (simp add: takeWhile_eq_all_conv)

lemma run_raises: "raises c \<Longrightarrow> run s (c # cs) = []"
  using transform_raises[of c s] by auto

lemma run_transformed: "run s cs = run s (transformed cs)"
proof (induction cs arbitrary: s)
  case Nil
  show ?case by (simp add: transformed_def)
next
  case (Cons c cs)
  show ?case
  proof (cases "raises c")
    case True
    then show ?thesis by (simp add: run_raises transformed_Cons del: run.simps(2))
  next
    case False
    then obtain s' out where "transform s c = Returned (s', out)"
      using transform_not_raises by blast
    with False Cons[of s'] show ?thesis by (simp add: transformed_Cons)
  qed
qed

lemma run_append:
  "list_all (\<lambda>c. \<not> raises c) cs \<Longrightarrow> \<exists>s'. \<forall>ds. run s (cs @ ds) = run s cs @ run s' ds"
proof (induction cs arbitrary: s)
  case Nil
  show ?case by auto
next
  case (Cons c cs)
  from Cons.prems obtain s1 out where t: "transform s c = Returned (s1, out)"
    using transform_not_raises[of c s] by auto
  from Cons.IH[of s1] Cons.prems obtain s' where
    "\<forall>ds. run s1 (cs @ ds) = run s1 cs @ run s' ds" by auto
  with t have "\<forall>ds. run s ((c # cs) @ ds) = run s (c # cs) @ run s' ds" by simp
  then show ?case by blast
qed

lemma filter_none: "list_all (\<lambda>e. \<not> P e) xs \<Longrightarrow> filter P xs = []"
  by (induction xs) auto

lemma llm_start_first_none:
  "list_all (\<lambda>e. \<not> is_llm_start e) xs \<Longrightarrow> llm_start_first xs"
  by (induction xs) auto

lemma llm_start_first_append_no_token:
  "list_all (\<lambda>e. \<not> is_token e) xs \<Longrightarrow> llm_start_first (xs @ ys) = llm_start_first ys"
  by (induction xs) auto

lemma run_True_no_llm_start: "list_all (\<lambda>e. \<not> is_llm_start e) (run True cs)"
proof (induction cs)
  case Nil show ?case by simp
next
  case (Cons c cs)
  show ?case
  proof (cases "transform True c")
    case (Raised e)
    then show ?thesis by simp
  next
    case (Returned p)
    obtain s' out where p: "p = (s', out)" by (cases p)
    show ?thesis
    proof (cases "is_start_signal c")
      case True
      with Cons show ?thesis by (simp add: transform_start)
    next
      case False
      with Returned p transform_state[of c True s' out] transform_no_llm_start[of c True s' out]
      have "s' = True" "list_all (\<lambda>e. \<not> is_llm_start e) out" by auto
      with Cons Returned p show ?thesis by simp
    qed
  qed
qed

lemma run_llm_start_count: "length (filter is_llm_start (run s cs)) \<le> 1"
proof (induction cs arbitrary: s)
  case Nil show ?case by simp
next
  case (Cons c cs)
  show ?case
  proof (cases "transform s c")
    case (Raised e)
    then show ?thesis by simp
  next
    case (Returned p)
    obtain s' out where p: "p = (s', out)" by (cases p)
    show ?thesis
    proof (cases "is_start_signal c")
      case True
      then show ?thesis
        using run_True_no_llm_start[of cs] by (simp add: transform_start filter_none)
    next
      case False
      with Returned p transform_no_llm_start[of c s s' out]
      have "filter is_llm_start out = []" by (simp add: filter_none)
      with Cons[of s'] Returned p show ?thesis by simp
    qed
  qed
qed

lemma run_False_has_llm_start:
  "list_ex is_llm_start (run False cs) = list_ex is_start_signal (transformed cs)"
proof (induction cs)
  case Nil show ?case by (simp add: transformed_def)
next
  case (Cons c cs)
  show ?case
  proof (cases "raises c")
    case True
    then show ?thesis by (simp add: run_raises transformed_Cons del: run.simps(2))
  next
    case nr: False
    show ?thesis
    proof (cases "is_start_signal c")
      case True
      with nr show ?thesis by (simp add: transform_start transformed_Cons)
    next
      case False
      from nr obtain s' out where t: "transform False c = Returned (s', out)"
        using transform_not_raises by blast
      with False transform_state[of c False s' out] transform_no_llm_start[of c False s' out]
      have "s' = False" "list_all (\<lambda>e. \<not> is_llm_start e) out" by auto
      with Cons t False nr show ?thesis
        by (auto simp: list_ex_iff list_all_iff transformed_Cons)
    qed
  qed
qed

lemma run_False_order:
  "llm_start_first (run False cs) = no_text_before_start (transformed cs)"
proof (induction cs)
  case Nil show ?case by (simp add: transformed_def)
next
  case (Cons c cs)
  show ?case
  proof (cases "raises c")
    case True
    then show ?thesis by (simp add: run_raises transformed_Cons del: run.simps(2))
  next
    case nr: False
    show ?thesis
    proof (cases "is_start_signal c")
      case True
      with nr show ?thesis
        using run_True_no_llm_start[of cs]
        by (simp add: transform_start llm_start_first_none transformed_Cons)
    next
      case ns: False
      show ?thesis
      proof (cases "is_text_delta c")
        case True
        then obtain t where t: "transform False c = Returned (False, [Token t])"
          using transform_text_delta[of c False] by blast
        have "list_all (\<lambda>x. \<not> is_llm_start x) (run False cs)
            = list_all (\<lambda>x. \<not> is_start_signal x) (transformed cs)"
          using run_False_has_llm_start[of cs] by (auto simp: list_ex_iff list_all_iff)
        then show ?thesis using ns nr True t
          by (auto simp: llm_start_first_none transformed_Cons)
      next
        case False
        from nr obtain s' out where t: "transform False c = Returned (s', out)"
          using transform_not_raises by blast
        with ns False transform_state[of c False s' out] transform_no_token[of c False s' out]
        have "s' = False" "list_all (\<lambda>e. \<not> is_token e) out" by auto
        with Cons t ns nr False show ?thesis
          by (simp add: llm_start_first_append_no_token transformed_Cons)
      qed
    qed
  qed
qed

lemma run_terminal_count:
  "length (filter is_terminal (run s cs)) = length (filter is_terminal_chunk (transformed cs))"
proof (induction cs arbitrary: s)
  case Nil show ?case by (simp add: transformed_def)
next
  case (Cons c cs)
  show ?case
  proof (cases "raises c")
    case True
    then show ?thesis by (simp add: run_raises transformed_Cons del: run.simps(2))
  next
    case nr: False
    then obtain s' out where t: "transform s c = Returned (s', out)"
      using transform_not_raises by blast
    show ?thesis
    proof (cases "is_terminal_chunk c")
      case True
      with t transform_terminal[of c s s' out] obtain e where "is_terminal e" "out = [e]"
        by auto
      with Cons[of s'] True t nr show ?thesis by (simp add: transformed_Cons)
    next
      case False
      with t transform_not_terminal[of c s s' out]
      have "filter is_terminal out = []" by (simp add: filter_none)
      with Cons[of s'] t False nr show ?thesis by (simp add: transformed_Cons)
    qed
  qed
qed

lemma run_no_terminal:
  "list_all (\<lambda>c. \<not> is_terminal_chunk c) cs \<Longrightarrow> list_all (\<lambda>e. \<not> is_terminal e) (run s cs)"
proof (induction cs arbitrary: s)
  case Nil show ?case by simp
next
  case (Cons c cs)
  show ?case
  proof (cases "transform s c")
    case (Raised e)
    then show ?thesis by simp
  next
    case (Returned p)
    obtain s' out where p: "p = (s', out)" by (cases p)
    with Returned Cons.prems transform_not_terminal[of c s s' out]
    have "list_all (\<lambda>e. \<not> is_terminal e) out" by simp
    with Cons Returned p show ?thesis by simp
  qed
qed

lemma run_snoc:
  assumes "list_all (\<lambda>c. \<not> raises c) cs"
  shows "\<exists>s'. run s (cs @ [c]) = run s cs @ run s' [c]"
  using run_append[OF assms, of s] by blast

lemma run_terminal_last:
  assumes "terminal_chunk_last (transformed cs)"
  shows "terminates_once (run s cs)"
proof -
  from assms obtain pre c where cs: "transformed cs = pre @ [c]" and c: "is_terminal_chunk c"
    and pre: "list_all (\<lambda>c. \<not> is_terminal_chunk c) pre"
    unfolding terminal_chunk_last_def by (cases "transformed cs" rule: rev_cases) auto
  have ok: "list_all (\<lambda>c. \<not> raises c) (pre @ [c])"
    using transformed_all[of cs] unfolding cs .
  then have okp: "list_all (\<lambda>c. \<not> raises c) pre" and nr: "\<not> raises c" by simp_all
  obtain s1 where r: "run s (pre @ [c]) = run s pre @ run s1 [c]"
    using run_snoc[OF okp] by blast
  obtain s2 out where t: "transform s1 c = Returned (s2, out)"
    using transform_not_raises[OF nr] by blast
  with c transform_terminal[of c s1 s2 out] obtain e where e: "is_terminal e" "out = [e]"
    by auto
  have "run s cs = run s pre @ [e]"
    using run_transformed[of s cs] r t e unfolding cs by simp
  with e run_no_terminal[OF pre, of s] show ?thesis
    by (simp add: terminates_once_def)
qed

lemma run_snoc_text_delta:
  assumes "is_text_delta c"
  shows "\<exists>t. run s (transformed cs @ [c]) = run s cs @ [Token t]"
proof -
  obtain s1 where r: "run s (transformed cs @ [c]) = run s (transformed cs) @ run s1 [c]"
    using run_snoc[OF transformed_all] by blast
  obtain t where "transform s1 c = Returned (s1, [Token t])"
    using transform_text_delta[OF assms] by blast
  with r have "run s (transformed cs @ [c]) = run s cs @ [Token t]"
    using run_transformed[of s cs] by simp
  then show ?thesis by blast
qed

lemma transform_unknown: "\<not> known_type (type c) \<Longrightarrow> transform s c = Returned (s, [])"
  by (simp add: transform_def known_type_def)

lemma transform_length: "transform s c = Returned (s', out) \<Longrightarrow> length out \<le> 1"
  by (auto simp: transform_def split: if_splits outcome.splits)

lemma transform_error_iff:
  "transform s c = Returned (s', out) \<Longrightarrow> list_ex is_error out = is_error_chunk c"
  by (auto simp: transform_def is_error_chunk_def str_def split: if_splits outcome.splits)

lemma transform_error_chunk:
  "is_error_chunk c \<Longrightarrow> transform s c =
     (case js_String (error c) of
        Raised e \<Rightarrow> Raised e
      | Returned detail \<Rightarrow>
          Returned
            (s, [Error ((if type c = str ''tool-error'' then str ''Tool error: ''
                         else str ''Error: '') @ detail)]))"
  by (auto simp: transform_def is_error_chunk_def str_def split: outcome.splits)

lemma filter_Pair_same: "filter (\<lambda>p. fst p = r) (map (Pair r) out) = map (Pair r) out"
  by (induction out) auto

lemma filter_Pair_other: "r' \<noteq> r \<Longrightarrow> filter (\<lambda>p. fst p = r) (map (Pair r') out) = []"
  by (induction out) auto

lemma serve_isolated:
  "map snd (filter (\<lambda>p. fst p = r) (serve st tr))
     = (case st r of
          None \<Rightarrow> []
        | Some flag \<Rightarrow> run flag (map snd (filter (\<lambda>p. fst p = r) tr)))"
proof (induction tr arbitrary: st)
  case Nil
  show ?case by (simp split: option.splits)
next
  case (Cons p tr)
  obtain r' c where p: "p = (r', c)" by (cases p)
  show ?case
  proof (cases "st r'")
    case None
    have step: "serve st (p # tr) = serve st tr" using p None by simp
    show ?thesis
    proof (cases "r' = r")
      case True
      with None show ?thesis unfolding step using Cons.IH[of st] by (simp split: option.splits)
    next
      case False
      then show ?thesis unfolding step using Cons.IH[of st] p by (simp split: option.splits)
    qed
  next
    case (Some flag)
    show ?thesis
    proof (cases "transform flag c")
      case (Raised e)
      have step: "serve st (p # tr) = serve (st(r' := None)) tr" using p Some Raised by simp
      have ih: "map snd (filter (\<lambda>p. fst p = r) (serve (st(r' := None)) tr))
          = (case (st(r' := None)) r of
               None \<Rightarrow> []
             | Some flag \<Rightarrow> run flag (map snd (filter (\<lambda>p. fst p = r) tr)))"
        by (rule Cons.IH)
      show ?thesis
      proof (cases "r' = r")
        case True
        then show ?thesis unfolding step using ih p Some Raised by (simp split: option.splits)
      next
        case False
        then show ?thesis unfolding step using ih p by (simp split: option.splits)
      qed
    next
      case (Returned q)
      obtain s' out where q: "q = (s', out)" by (cases q)
      have step: "serve st (p # tr) = map (Pair r') out @ serve (st(r' := Some s')) tr"
        using p Some Returned q by simp
      have ih: "map snd (filter (\<lambda>p. fst p = r) (serve (st(r' := Some s')) tr))
          = (case (st(r' := Some s')) r of
               None \<Rightarrow> []
             | Some flag \<Rightarrow> run flag (map snd (filter (\<lambda>p. fst p = r) tr)))"
        by (rule Cons.IH)
      show ?thesis
      proof (cases "r' = r")
        case True
        then show ?thesis
          unfolding step using ih p Some Returned q
          by (simp add: filter_Pair_same comp_def split: option.splits)
      next
        case False
        then show ?thesis unfolding step using ih p by (simp add: filter_Pair_other split: option.splits)
      qed
    qed
  qed
qed


section \<open>The summariser computes the summary\<close>

lemma entry_lit: "str ''<entry>'' = [60, 101, 110, 116, 114, 121, 62]"
  by (simp add: str_def)

lemma open_lit: "str ''<title>'' = [60, 116, 105, 116, 108, 101, 62]"
  by (simp add: str_def)

lemma close_lit: "str ''</title>'' = [60, 47, 116, 105, 116, 108, 101, 62]"
  by (simp add: str_def)

lemma re_entry_app: "re_entry s = (if prefix (str ''<entry>'') s then Some 7 else None)"
  by (simp add: re_entry_def)

lemma re_title_tag_app:
  "re_title_tag s =
     (if prefix (str ''</title>'') s then Some 8
      else if prefix (str ''<title>'') s then Some 7 else None)"
  by (simp add: re_title_tag_def)

lemma re_ws_app:
  "re_ws s = (if takeWhile is_ws s \<noteq> [] then Some (length (takeWhile is_ws s)) else None)"
  by (simp add: re_ws_def Let_def)

lemma occurrences_skip_entry:
  assumes "prefix (str ''<entry>'') s"
  shows "occurrences (str ''<entry>'') s = Suc (occurrences (str ''<entry>'') (drop 7 s))"
proof -
  from assms obtain rest where "s = str ''<entry>'' @ rest" by (auto simp: prefix_def)
  then show ?thesis by (simp add: entry_lit)
qed

lemma match_all_entry: "length (match_all re_entry s) = occurrences (str ''<entry>'') s"
proof (induction s rule: length_induct)
  case (1 s)
  show ?case
  proof (cases s)
    case Nil
    then show ?thesis by (simp add: re_entry_app entry_lit)
  next
    case (Cons c cs)
    show ?thesis
    proof (cases "prefix (str ''<entry>'') s")
      case True
      have "length (drop 7 s) < length s" using Cons by simp
      with 1 have ih: "length (match_all re_entry (drop 7 s)) = occurrences (str ''<entry>'') (drop 7 s)"
        by blast
      have "match_all re_entry s = take 7 s # match_all re_entry (drop 7 s)"
        using True unfolding Cons by (simp add: re_entry_app)
      then show ?thesis using ih occurrences_skip_entry[OF True] by simp
    next
      case False
      have "length cs < length s" using Cons by simp
      with 1 have ih: "length (match_all re_entry cs) = occurrences (str ''<entry>'') cs" by blast
      have "match_all re_entry s = match_all re_entry cs"
        using False unfolding Cons by (simp add: re_entry_app)
      moreover have "occurrences (str ''<entry>'') s = occurrences (str ''<entry>'') cs"
        using False unfolding Cons by simp
      ultimately show ?thesis using ih by simp
    qed
  qed
qed

lemma no_close_inside:
  assumes "j < length (takeWhile (\<lambda>u. u \<noteq> 60) r)"
  shows "\<not> prefix (str ''</title>'') (drop j r)"
proof -
  from assms have jl: "j < length r" using length_takeWhile_le[of "\<lambda>u. u \<noteq> 60" r] by simp
  from assms have "takeWhile (\<lambda>u. u \<noteq> 60) r ! j \<noteq> 60"
    using nth_mem set_takeWhileD by fastforce
  with assms have "r ! j \<noteq> 60" by (simp add: takeWhile_nth)
  moreover from jl have "drop j r = r ! j # drop (Suc j) r" by (simp add: Cons_nth_drop_Suc)
  ultimately show ?thesis by (simp add: close_lit)
qed

lemma find_top:
  assumes "\<And>j. j \<in> set [1..<k] \<Longrightarrow> \<not> P j"
  shows "find P (rev [1..<Suc k]) = (if 0 < k \<and> P k then Some k else None)"
proof (cases "k = 0")
  case True
  then show ?thesis by simp
next
  case False
  have none: "find P (rev [1..<k]) = None" using assms by (simp add: find_None_iff)
  from False have "rev [1..<Suc k] = k # rev [1..<k]" by simp
  with none False show ?thesis by simp
qed

lemma find_backtrack:
  "find (\<lambda>j. prefix (str ''</title>'') (drop j r)) (rev [1..<Suc (length (takeWhile (\<lambda>u. u \<noteq> 60) r))])
   = (if takeWhile (\<lambda>u. u \<noteq> 60) r \<noteq> []
         \<and> prefix (str ''</title>'') (drop (length (takeWhile (\<lambda>u. u \<noteq> 60) r)) r)
      then Some (length (takeWhile (\<lambda>u. u \<noteq> 60) r)) else None)"
  using find_top[of "length (takeWhile (\<lambda>u. u \<noteq> 60) r)" "\<lambda>j. prefix (str ''</title>'') (drop j r)"]
    no_close_inside[of _ r]
  by simp

lemma re_title_eq:
  "re_title s =
     (if prefix (str ''<title>'') s
         \<and> takeWhile (\<lambda>u. u \<noteq> 60) (drop 7 s) \<noteq> []
         \<and> prefix (str ''</title>'') (drop (7 + length (takeWhile (\<lambda>u. u \<noteq> 60) (drop 7 s))) s)
      then Some (15 + length (takeWhile (\<lambda>u. u \<noteq> 60) (drop 7 s))) else None)"
  unfolding re_title_def Let_def find_backtrack
  by (simp add: add.commute)

lemma strip_inner:
  "60 \<notin> set x \<Longrightarrow> replace_all re_title_tag [] (x @ str ''</title>'') = x"
proof (induction x)
  case Nil
  show ?case by (simp add: re_title_tag_app close_lit open_lit)
next
  case (Cons c x)
  then show ?case by (simp add: re_title_tag_app close_lit open_lit)
qed

lemma strip_title:
  "60 \<notin> set x \<Longrightarrow> replace_all re_title_tag [] (str ''<title>'' @ x @ str ''</title>'') = x"
  using strip_inner[of x] by (simp add: re_title_tag_app open_lit close_lit)

lemma title_match_shape:
  assumes p: "prefix (str ''<title>'') s"
    and c: "prefix (str ''</title>'') (drop (7 + length (takeWhile (\<lambda>u. u \<noteq> 60) (drop 7 s))) s)"
  shows "take (15 + length (takeWhile (\<lambda>u. u \<noteq> 60) (drop 7 s))) s
         = str ''<title>'' @ takeWhile (\<lambda>u. u \<noteq> 60) (drop 7 s) @ str ''</title>''"
proof -
  define x where "x = takeWhile (\<lambda>u. u \<noteq> 60) (drop 7 s)"
  from p obtain r where s: "s = str ''<title>'' @ r" by (auto simp: prefix_def)
  have l7: "length (str ''<title>'') = 7" by (simp add: str_def)
  have r: "drop 7 s = r" using s l7 by simp
  have "r = x @ dropWhile (\<lambda>u. u \<noteq> 60) r" unfolding x_def r by simp
  then obtain t where rt: "r = x @ t" by blast
  have "drop (7 + length x) s = t" using s rt l7 by simp
  with c obtain v where t: "t = str ''</title>'' @ v" unfolding x_def[symmetric] by (auto simp: prefix_def)
  have l8: "length (str ''</title>'') = 8" by (simp add: str_def)
  have "take (15 + length x) s = str ''<title>'' @ x @ str ''</title>''"
    unfolding s rt t using l7 l8 by simp
  then show ?thesis unfolding x_def .
qed

lemma match_all_title:
  "map (replace_all re_title_tag []) (match_all re_title s) = title_contents s"
proof (induction s rule: length_induct)
  case (1 s)
  show ?case
  proof (cases s)
    case Nil
    then show ?thesis by (simp add: re_title_eq open_lit)
  next
    case (Cons c cs)
    define x where "x = takeWhile (\<lambda>u. u \<noteq> 60) (drop 7 s)"
    show ?thesis
    proof (cases "prefix (str ''<title>'') s \<and> x \<noteq> [] \<and> prefix (str ''</title>'') (drop (7 + length x) s)")
      case True
      then have rt: "re_title s = Some (15 + length x)" unfolding x_def by (simp add: re_title_eq)
      have "60 \<notin> set x" unfolding x_def using set_takeWhileD by fastforce
      then have st: "replace_all re_title_tag [] (take (15 + length x) s) = x"
        using title_match_shape[of s] True strip_title[of x] unfolding x_def by simp
      have "length (drop (15 + length x) s) < length s" using Cons by simp
      with 1 have ih: "map (replace_all re_title_tag []) (match_all re_title (drop (15 + length x) s))
          = title_contents (drop (15 + length x) s)" by blast
      have tc: "title_contents s = x # title_contents (drop (15 + length x) s)"
        using True unfolding Cons x_def by simp
      have ma: "match_all re_title s = take (15 + length x) s # match_all re_title (drop (15 + length x) s)"
        using rt unfolding Cons by (simp add: max_def)
      show ?thesis unfolding tc ma using st ih by simp
    next
      case False
      then have rt: "re_title s = None" unfolding x_def by (auto simp: re_title_eq)
      have "length cs < length s" using Cons by simp
      with 1 have ih: "map (replace_all re_title_tag []) (match_all re_title cs) = title_contents cs"
        by blast
      have tc: "title_contents s = title_contents cs"
        using False unfolding Cons x_def by auto
      have ma: "match_all re_title s = match_all re_title cs"
        using rt unfolding Cons by simp
      show ?thesis unfolding tc ma using ih .
    qed
  qed
qed

lemma replace_ws: "replace_all re_ws (str '' '') s = collapse_ws s"
proof (induction s rule: collapse_ws.induct)
  case 1
  show ?case by (simp add: re_ws_app)
next
  case (2 c cs)
  show ?case
  proof (cases "is_ws c")
    case True
    have "drop (length (takeWhile is_ws cs)) cs = dropWhile is_ws cs"
      by (simp add: dropWhile_eq_drop)
    with True 2 show ?thesis by (simp add: re_ws_app str_def)
  next
    case False
    with 2 show ?thesis by (simp add: re_ws_app)
  qed
qed

lemma paperTitles_eq:
  "paperTitles s = map (\<lambda>t. collapse_ws (trim t)) (take 3 (drop 1 (title_contents s)))"
proof -
  have "map (\<lambda>t. replace_all re_ws (str '' '') (trim (replace_all re_title_tag [] t))) ms
      = map (\<lambda>t. collapse_ws (trim t)) (map (replace_all re_title_tag []) ms)" for ms
    by (simp add: replace_ws)
  then show ?thesis
    unfolding paperTitles_def slice_def
    by (simp add: match_all_title[symmetric] take_map drop_map)
qed

lemma result_message_arxiv:
  "result_message (str ''arxiv_search'') (JStr s) = summary s"
  by (simp add: result_message_def summary_def Let_def paperTitles_eq match_all_entry)


section \<open>Facts about tool results and the fetcher\<close>

lemma toolName_of_string: "toolName c = JStr name \<Longrightarrow> toolName_of c = Returned name"
  by (simp add: toolName_of_def)

lemma transform_tool_result:
  "type c = str ''tool-result'' \<Longrightarrow> toolName c = JStr name \<Longrightarrow>
   transform s c =
     Returned
       (s, [ToolResult name (result_message name (output' c)) (toolCallId_of c) (input c)
              (output' c)])"
  by (simp add: transform_def toolName_of_string str_def)

lemma transform_finish:
  "type c = str ''finish'' \<Longrightarrow>
   transform s c = Returned (s, [Complete (str ''Analysis complete'')])"
  by (simp add: transform_def str_def)

lemma run_snoc_finish:
  assumes "type f = str ''finish''" and "list_all (\<lambda>c. \<not> raises c) cs"
  shows "last (run s (cs @ [f])) = Complete (str ''Analysis complete'')"
proof -
  obtain s' where "run s (cs @ [f]) = run s cs @ run s' [f]"
    using run_snoc[OF assms(2)] by blast
  then show ?thesis by (simp add: transform_finish[OF assms(1)])
qed

lemma show_nat_digits: "set (show_nat n) \<subseteq> {48..57}"
proof (induction n rule: show_nat.induct)
  case (1 n)
  show ?case
  proof (cases "n < 10")
    case True
    then show ?thesis by (subst show_nat.simps) simp
  next
    case False
    have "n mod 10 < 10" by simp
    then have "48 + n mod 10 \<in> {48..57}" by simp
    with False 1 show ?thesis by (subst show_nat.simps) simp
  qed
qed

lemma occurrences_none:
  "hd p \<notin> set s \<Longrightarrow> p \<noteq> [] \<Longrightarrow> occurrences p s = 0"
proof (induction s)
  case Nil show ?case by simp
next
  case (Cons c s)
  from Cons.prems have "\<not> prefix p (c # s)"
    by (cases p) auto
  with Cons show ?case by simp
qed

lemma title_contents_none: "60 \<notin> set s \<Longrightarrow> title_contents s = []"
proof (induction s)
  case Nil show ?case by simp
next
  case (Cons c s)
  then have "\<not> prefix (str ''<title>'') (c # s)" by (auto simp: open_lit)
  with Cons show ?case by simp
qed

lemma summary_no_tags: "60 \<notin> set s \<Longrightarrow> summary s = str ''Found 0 papers''"
  by (simp add: summary_def occurrences_none title_contents_none entry_lit show_nat.simps str_def)

lemma placeholder_no_tags:
  "60 \<notin> set (str ''Error: ArXiv API returned status '' @ show_nat n)"
proof -
  have "60 \<notin> set (show_nat n)" using show_nat_digits[of n] by auto
  then show ?thesis by (simp add: str_def)
qed

lemma fetchArxiv_result:
  assumes "encodeURIComponent query = Returned q"
    and "fetch (arxiv_url q (case maxResults of None \<Rightarrow> 5 | Some n \<Rightarrow> n)) = Returned r"
  shows "fetchArxiv encodeURIComponent fetch query maxResults =
     (if ok r then body r
      else Returned (str ''Error: ArXiv API returned status '' @ show_nat (status r)))"
  using assms by (simp add: fetchArxiv_def)

text \<open>
  A chunk on which \<open>transform\<close> raises ends the stream: nothing is enqueued for it or
  for the chunks after it, a \<open>finish\<close> chunk included.
\<close>

lemma raising_chunk_ends_stream:
  "pipeThrough
     [bare (str ''start''),
      (bare (str ''error'')) \<lparr>error := JObj [(str ''toString'', JNum 1)]\<rparr>,
      bare (str ''finish'')]
   = [LlmStart MODEL_NAME (str ''Analyzing with '' @ MODEL_NAME @ str ''...'')]"
  by (simp add: pipeThrough_def transform_def bare_def str_def)


section \<open>Reading back what was written: strings and numbers\<close>

lemma skip_ws_non_ws: "\<not> is_json_ws c \<Longrightarrow> skip_ws (c # cs) = c # cs"
  by (simp add: skip_ws_def)

lemma hex_value_hexdigit: "d < 16 \<Longrightarrow> hex_value (hexdigit d) = Some d"
  by (simp add: hex_value_def hexdigit_def)

lemma hex_split: "((c div 4096 * 16 + c div 256 mod 16) * 16 + c div 16 mod 16) * 16 + c mod 16 = (c::nat)"
proof -
  have a: "c div 256 = c div 16 div 16" by (simp add: div_mult2_eq)
  have b: "c div 4096 = c div 16 div 16 div 16" by (simp add: div_mult2_eq)
  define x where "x = c div 16"
  define y where "y = x div 16"
  have 1: "c = x * 16 + c mod 16" unfolding x_def by simp
  have 2: "x = y * 16 + x mod 16" unfolding y_def by simp
  have 3: "y = y div 16 * 16 + y mod 16" by simp
  have "((y div 16 * 16 + y mod 16) * 16 + x mod 16) * 16 + c mod 16 = c"
    using 1 2 3 by simp
  then show ?thesis unfolding a b x_def y_def .
qed

lemma hex4_value_digits:
  "a < 16 \<Longrightarrow> b < 16 \<Longrightarrow> e < 16 \<Longrightarrow> f < 16 \<Longrightarrow>
   hex4_value [hexdigit a, hexdigit b, hexdigit e, hexdigit f]
     = Some (((a * 16 + b) * 16 + e) * 16 + f)"
  by (simp add: hex_value_hexdigit)

lemma hex4_value_hex4: "c < 65536 \<Longrightarrow> hex4_value (hex4 c) = Some c"
proof -
  assume c: "c < 65536"
  have d: "c div 4096 mod 16 = c div 4096" using c by simp
  have "c div 4096 < 16" using c by simp
  then have "hex4_value (hex4 c)
      = Some (((c div 4096 * 16 + c div 256 mod 16) * 16 + c div 16 mod 16) * 16 + c mod 16)"
    unfolding hex4_def d by (intro hex4_value_digits) simp_all
  then show ?thesis unfolding hex_split .
qed

lemma parse_chars_plain:
  "c \<noteq> 34 \<Longrightarrow> c \<noteq> 92 \<Longrightarrow> \<not> c < 32 \<Longrightarrow>
   parse_chars (c # t) = map_option (\<lambda>p. (c # fst p, snd p)) (parse_chars t)"
  by simp

lemma parse_chars_esc:
  "parse_chars (esc c @ t) = map_option (\<lambda>p. (c # fst p, snd p)) (parse_chars t)"
proof -
  consider "c = 8" | "c = 9" | "c = 10" | "c = 12" | "c = 13" | "c = 34" | "c = 92"
    | "c \<notin> {8, 9, 10, 12, 13, 34, 92}" "c < 32 \<or> is_high c \<or> is_low c"
    | "c \<notin> {8, 9, 10, 12, 13, 34, 92}" "\<not> (c < 32 \<or> is_high c \<or> is_low c)"
    by blast
  then show ?thesis
  proof cases
    case 8
    then have "c < 65536" by (auto simp: is_high_def is_low_def)
    then have h: "hex4_value (hex4 c) = Some c" by (rule hex4_value_hex4)
    have l: "length (hex4 c) = 4" by (simp add: hex4_def)
    from 8 have "esc c = [92, 117] @ hex4 c" by (auto simp: esc_def)
    then show ?thesis using h l by simp
  next
    case 9
    then have "esc c = [c]" by (auto simp: esc_def)
    with 9 show ?thesis by simp
  qed (simp_all add: esc_def unescape_def)
qed

lemma parse_chars_quote_body:
  "parse_chars (quote_body s @ 34 # rest) = Some (s, rest)"
proof (induction s rule: quote_body.induct)
  case 1
  show ?case by simp
next
  case (2 c)
  have "parse_chars (34 # rest) = Some ([], rest)" by simp
  then show ?case by (simp add: parse_chars_esc del: parse_chars.simps)
next
  case (3 c d cs)
  show ?case
  proof (cases "is_high c \<and> is_low d")
    case True
    then have "c \<noteq> 34" "c \<noteq> 92" "\<not> c < 32" "d \<noteq> 34" "d \<noteq> 92" "\<not> d < 32"
      by (auto simp: is_high_def is_low_def)
    moreover from True have q: "quote_body (c # d # cs) = c # d # quote_body cs" by simp
    moreover from True 3 have "parse_chars (quote_body cs @ 34 # rest) = Some (cs, rest)" by simp
    ultimately show ?thesis
      by (simp add: parse_chars_plain del: parse_chars.simps quote_body.simps)
  next
    case False
    then have q: "quote_body (c # d # cs) = esc c @ quote_body (d # cs)" by auto
    show ?thesis unfolding q using 3 False
      by (simp add: parse_chars_esc del: parse_chars.simps quote_body.simps)
  qed
qed

lemma show_nat_nonempty: "show_nat n \<noteq> []"
  by (subst show_nat.simps) simp

lemma show_nat_all_digits: "list_all is_digit (show_nat n)"
proof (induction n rule: show_nat.induct)
  case (1 n)
  show ?case
  proof (cases "n < 10")
    case True
    then show ?thesis by (subst show_nat.simps) (simp add: is_digit_def)
  next
    case False
    have "n mod 10 < 10" by simp
    then have "is_digit (48 + n mod 10)" unfolding is_digit_def by linarith
    with False 1 show ?thesis by (subst show_nat.simps) simp
  qed
qed

lemma digits_value_snoc: "digits_value (ds @ [c]) = 10 * digits_value ds + (c - 48)"
  by (simp add: digits_value_def)

lemma digits_value_show_nat: "digits_value (show_nat n) = n"
proof (induction n rule: show_nat.induct)
  case (1 n)
  show ?case
  proof (cases "n < 10")
    case True
    then show ?thesis by (subst show_nat.simps) (simp add: digits_value_def)
  next
    case False
    with 1 have "digits_value (show_nat (n div 10)) = n div 10" by simp
    with False show ?thesis by (subst show_nat.simps) (simp add: digits_value_snoc)
  qed
qed

lemma show_nat_hd: "0 < n \<Longrightarrow> hd (show_nat n) \<noteq> 48"
proof (induction n rule: show_nat.induct)
  case (1 n)
  show ?case
  proof (cases "n < 10")
    case True
    with 1 show ?thesis by (subst show_nat.simps) simp
  next
    case False
    then have "0 < n div 10" by simp
    with 1 False have "hd (show_nat (n div 10)) \<noteq> 48" by simp
    with False show ?thesis
      by (subst show_nat.simps) (simp add: show_nat_nonempty)
  qed
qed

lemma show_nat_leading: "1 < length (show_nat n) \<Longrightarrow> hd (show_nat n) \<noteq> 48"
proof (cases "n = 0")
  case True
  assume "1 < length (show_nat n)"
  with True show ?thesis by (simp add: show_nat.simps)
next
  case False
  then show ?thesis by (simp add: show_nat_hd)
qed

lemma takeWhile_ends: "ends_number r \<Longrightarrow> takeWhile is_digit r = []"
  by (cases r) (simp_all add: ends_number_def)

lemma dropWhile_ends: "ends_number r \<Longrightarrow> dropWhile is_digit r = r"
  by (cases r) (simp_all add: ends_number_def)

lemma takeWhile_digits:
  assumes "ends_number r"
  shows "takeWhile is_digit (show_nat n @ r) = show_nat n"
proof -
  have "\<And>x. x \<in> set (show_nat n) \<Longrightarrow> is_digit x"
    using show_nat_all_digits[of n] by (simp add: list_all_iff)
  then have "takeWhile is_digit (show_nat n @ r) = show_nat n @ takeWhile is_digit r"
    by (rule takeWhile_append2)
  then show ?thesis using takeWhile_ends[OF assms] by simp
qed

lemma dropWhile_digits:
  assumes "ends_number r"
  shows "dropWhile is_digit (show_nat n @ r) = r"
proof -
  have "\<And>x. x \<in> set (show_nat n) \<Longrightarrow> is_digit x"
    using show_nat_all_digits[of n] by (simp add: list_all_iff)
  then have "dropWhile is_digit (show_nat n @ r) = dropWhile is_digit r"
    by (rule dropWhile_append2)
  then show ?thesis using dropWhile_ends[OF assms] by simp
qed

lemma ends_number_hd: "ends_number r \<Longrightarrow> r \<noteq> [] \<Longrightarrow> hd r \<noteq> 46 \<and> hd r \<noteq> 101 \<and> hd r \<noteq> 69"
  by (cases r) (simp_all add: ends_number_def)

lemma parse_digits_show_nat:
  assumes "ends_number r"
  shows "parse_digits (show_nat n @ r) = Some (n, r)"
proof -
  have t: "takeWhile is_digit (show_nat n @ r) = show_nat n" by (rule takeWhile_digits[OF assms])
  have d: "dropWhile is_digit (show_nat n @ r) = r" by (rule dropWhile_digits[OF assms])
  have l: "\<not> (1 < length (show_nat n) \<and> hd (show_nat n) = 48)"
    using show_nat_leading[of n] by blast
  have e: "\<not> (r \<noteq> [] \<and> (hd r = 46 \<or> hd r = 101 \<or> hd r = 69))"
    using ends_number_hd[OF assms] by blast
  show ?thesis
    unfolding parse_digits_def Let_def t d
    using l e by (simp add: show_nat_nonempty digits_value_show_nat)
qed

lemma show_nat_hd_digit: "is_digit (hd (show_nat n))"
  using show_nat_all_digits[of n] show_nat_nonempty[of n]
  by (cases "show_nat n") auto

lemma parse_number_show_int:
  assumes "ends_number r"
  shows "parse_number (show_int i @ r) = Some (i, r)"
proof (cases "i < 0")
  case True
  then show ?thesis
    using parse_digits_show_nat[OF assms, of "nat (- i)"]
    by (simp add: parse_number_def show_int_def)
next
  case False
  obtain d ds where s: "show_nat (nat i) = d # ds"
    using show_nat_nonempty[of "nat i"] by (cases "show_nat (nat i)") auto
  with show_nat_hd_digit[of "nat i"] have "d \<noteq> 45" by (auto simp: is_digit_def)
  with False s show ?thesis
    using parse_digits_show_nat[OF assms, of "nat i"]
    by (simp add: parse_number_def show_int_def)
qed


section \<open>Reading back what was written: values\<close>

lemma show_int_head:
  obtains c t where "show_int n = c # t" "c = 45 \<or> is_digit c"
proof (cases "n < 0")
  case True
  then have "show_int n = 45 # show_nat (nat (- n))" by (simp add: show_int_def)
  then show ?thesis using that by blast
next
  case False
  obtain d ds where s: "show_nat (nat n) = d # ds"
    using show_nat_nonempty[of "nat n"] by (cases "show_nat (nat n)") auto
  with show_nat_hd_digit[of "nat n"] have "is_digit d" by simp
  with False s show ?thesis using that by (simp add: show_int_def)
qed

lemma ser_head: obtains c t where "ser v = c # t" "starts_value c"
proof (cases v)
  case (JNum n)
  obtain c t where "show_int n = c # t" "c = 45 \<or> is_digit c" by (rule show_int_head)
  then show ?thesis using that JNum
    by (auto simp: starts_value_def is_json_ws_def is_digit_def)
next
  case (JBool b)
  then show ?thesis using that[of "hd (ser v)" "tl (ser v)"]
    by (cases b) (simp_all add: starts_value_def is_json_ws_def str_def)
qed (use that in \<open>simp_all add: starts_value_def is_json_ws_def str_def quote_def\<close>)

lemma parse_atom_string: "parse_atom (quote s @ rest) = Some (JStr s, rest)"
  by (simp add: parse_atom_def quote_def parse_chars_quote_body del: parse_chars.simps)

lemma parse_atom_true: "parse_atom (str ''true'' @ rest) = Some (JBool True, rest)"
  by (simp add: parse_atom_def str_def)

lemma parse_atom_false: "parse_atom (str ''false'' @ rest) = Some (JBool False, rest)"
  by (simp add: parse_atom_def str_def)

lemma parse_atom_null: "parse_atom (str ''null'' @ rest) = Some (JNull, rest)"
  by (simp add: parse_atom_def str_def)

lemma parse_atom_number:
  assumes "ends_number rest"
  shows "parse_atom (show_int n @ rest) = Some (JNum n, rest)"
proof -
  obtain c t where s: "show_int n = c # t" and c: "c = 45 \<or> is_digit c" by (rule show_int_head)
  from c have "c \<noteq> 34" "c \<noteq> 116" "c \<noteq> 102" "c \<noteq> 110" by (auto simp: is_digit_def)
  then have "parse_atom (c # t @ rest)
      = map_option (\<lambda>p. (JNum (fst p), snd p)) (parse_number (c # t @ rest))"
    by (simp add: parse_atom_def str_def)
  then show ?thesis
    using parse_number_show_int[OF assms, of n] unfolding s by simp
qed

lemma parse_value_atom:
  assumes "starts_value c" "c \<noteq> 123" "c \<noteq> 91"
  shows "parse_value (Suc f) (c # t) = parse_atom (c # t)"
  using assms by (simp add: starts_value_def skip_ws_non_ws)

lemma skip_ws_starts: "starts_value c \<Longrightarrow> skip_ws (c # t) = c # t"
  by (simp add: starts_value_def skip_ws_non_ws)

lemma put_fresh: "k \<notin> fst ` set acc \<Longrightarrow> put k v acc = acc @ [(k, v)]"
  by (induction acc) auto

lemma parse_key_quote: "parse_key (quote k @ 58 # t) = Some (k, t)"
proof -
  have 1: "skip_ws (quote k @ 58 # t) = 34 # quote_body k @ 34 # 58 # t"
    by (simp add: quote_def skip_ws_def is_json_ws_def)
  have 2: "parse_chars (quote_body k @ 34 # 58 # t) = Some (k, 58 # t)"
    by (rule parse_chars_quote_body)
  have 3: "skip_ws (58 # t) = 58 # t" by (simp add: skip_ws_def is_json_ws_def)
  show ?thesis unfolding parse_key_def 1 using 2 3 by simp
qed

lemma reads_backD:
  "reads_back v \<Longrightarrow> calls v \<le> f \<Longrightarrow> ends_number rest \<Longrightarrow>
   parse_value f (ser v @ rest) = Some (v, rest)"
  by (simp add: reads_back_def)

lemma ends_number_sep: "ends_number (44 # r)" "ends_number (93 # r)" "ends_number (125 # r)"
  by (simp_all add: ends_number_def is_digit_def)

lemma skip_ws_sep: "skip_ws (44 # r) = 44 # r" "skip_ws (93 # r) = 93 # r"
  "skip_ws (125 # r) = 125 # r" "skip_ws (91 # r) = 91 # r" "skip_ws (123 # r) = 123 # r"
  by (simp_all add: skip_ws_def is_json_ws_def)

lemma parse_elements_join:
  assumes "\<And>x. x \<in> set xs \<Longrightarrow> reads_back x"
    and "xs \<noteq> []"
    and "sum_list (map (\<lambda>x. Suc (calls x)) xs) \<le> f"
  shows "parse_elements f (join [44] (map ser xs) @ 93 # rest) acc = Some (JArr (acc @ xs), rest)"
  using assms
proof (induction xs arbitrary: f acc)
  case Nil
  then show ?case by simp
next
  case (Cons x xs)
  from Cons.prems(3) obtain f' where f: "f = Suc f'" by (cases f) auto
  from Cons.prems(3) f have cx: "calls x \<le> f'" by simp
  have rx: "reads_back x" using Cons.prems(1) by simp
  show ?case
  proof (cases xs)
    case Nil
    have "parse_value f' (ser x @ 93 # rest) = Some (x, 93 # rest)"
      by (rule reads_backD[OF rx cx ends_number_sep(2)])
    then show ?thesis unfolding f Nil by (simp add: skip_ws_sep)
  next
    case (Cons y ys)
    have pv: "parse_value f' (ser x @ 44 # join [44] (map ser xs) @ 93 # rest)
        = Some (x, 44 # join [44] (map ser xs) @ 93 # rest)"
      by (rule reads_backD[OF rx cx ends_number_sep(1)])
    have "sum_list (map (\<lambda>x. Suc (calls x)) xs) \<le> f'"
      using Cons.prems(3) f by simp
    then have ih: "parse_elements f' (join [44] (map ser xs) @ 93 # rest) (acc @ [x])
        = Some (JArr ((acc @ [x]) @ xs), rest)"
      using Cons.IH[of f' "acc @ [x]"] Cons.prems(1) Cons by simp
    have j: "join [44] (map ser (x # xs)) = ser x @ 44 # join [44] (map ser xs)"
      unfolding Cons by simp
    show ?thesis unfolding f j using pv ih by (simp add: skip_ws_sep)
  qed
qed

lemma parse_members_join:
  assumes "\<And>p. p \<in> set ps \<Longrightarrow> reads_back (snd p)"
    and "ps \<noteq> []"
    and "sum_list (map (\<lambda>p. Suc (calls (snd p))) ps) \<le> f"
    and "distinct (map fst (acc @ ps))"
  shows "parse_members f (join [44] (map member ps) @ 125 # rest) acc = Some (JObj (acc @ ps), rest)"
  using assms
proof (induction ps arbitrary: f acc)
  case Nil
  then show ?case by simp
next
  case (Cons p ps)
  obtain k v where p: "p = (k, v)" by (cases p)
  from Cons.prems(3) obtain f' where f: "f = Suc f'" by (cases f) auto
  from Cons.prems(3) f p have cv: "calls v \<le> f'" by simp
  have rv: "reads_back v" using Cons.prems(1)[of p] p by simp
  have fresh: "k \<notin> fst ` set acc" using Cons.prems(4) p by auto
  then have pt: "put k v acc = acc @ [(k, v)]" by (rule put_fresh)
  show ?case
  proof (cases ps)
    case Nil
    have pv: "parse_value f' (ser v @ 125 # rest) = Some (v, 125 # rest)"
      by (rule reads_backD[OF rv cv ends_number_sep(3)])
    have t: "join [44] (map member (p # ps)) @ 125 # rest = quote k @ 58 # ser v @ 125 # rest"
      unfolding Nil p by (simp add: member_def)
    have "parse_members (Suc f') (quote k @ 58 # ser v @ 125 # rest) acc
        = Some (JObj (acc @ [(k, v)]), rest)"
      using pv pt by (simp add: parse_key_quote skip_ws_sep)
    then show ?thesis using f t Nil p by simp
  next
    case (Cons q qs)
    have pv: "parse_value f' (ser v @ 44 # join [44] (map member ps) @ 125 # rest)
        = Some (v, 44 # join [44] (map member ps) @ 125 # rest)"
      by (rule reads_backD[OF rv cv ends_number_sep(1)])
    have "sum_list (map (\<lambda>p. Suc (calls (snd p))) ps) \<le> f'"
      using Cons.prems(3) f by simp
    moreover have "distinct (map fst ((acc @ [(k, v)]) @ ps))"
      using Cons.prems(4) p by simp
    ultimately have ih: "parse_members f' (join [44] (map member ps) @ 125 # rest) (acc @ [(k, v)])
        = Some (JObj ((acc @ [(k, v)]) @ ps), rest)"
      using Cons.IH[of f' "acc @ [(k, v)]"] Cons.prems(1) Cons by simp
    have t: "join [44] (map member (p # ps)) @ 125 # rest
        = quote k @ 58 # ser v @ 44 # join [44] (map member ps) @ 125 # rest"
      unfolding Cons p by (simp add: member_def)
    have "parse_members (Suc f')
        (quote k @ 58 # ser v @ 44 # join [44] (map member ps) @ 125 # rest) acc
        = Some (JObj ((acc @ [(k, v)]) @ ps), rest)"
      using pv pt ih by (simp add: parse_key_quote skip_ws_sep)
    then show ?thesis using f t p by simp
  qed
qed

lemma join_head:
  assumes "xs \<noteq> []" "\<And>x. x \<in> set xs \<Longrightarrow> \<exists>c t. g x = c # t \<and> starts_value c"
  shows "\<exists>c t. join sep (map g xs) = c # t \<and> starts_value c"
proof (cases xs)
  case Nil
  with assms show ?thesis by simp
next
  case (Cons x ys)
  from assms(2)[of x] Cons obtain c t where "g x = c # t" "starts_value c" by auto
  then show ?thesis unfolding Cons by (cases ys) auto
qed

lemma reads_back_array:
  assumes "\<And>x. x \<in> set xs \<Longrightarrow> reads_back x"
  shows "reads_back (JArr xs)"
  unfolding reads_back_def
proof (intro allI impI)
  fix f rest
  assume c: "calls (JArr xs) \<le> f" and e: "ends_number rest"
  from c obtain f' where f: "f = Suc f'" and s: "sum_list (map (\<lambda>x. Suc (calls x)) xs) \<le> f'"
    by (cases f) auto
  show "parse_value f (ser (JArr xs) @ rest) = Some (JArr xs, rest)"
  proof (cases "xs = []")
    case True
    then show ?thesis unfolding f
      by (simp add: skip_ws_sep)
  next
    case False
    have "\<exists>c t. join [44] (map ser xs) = c # t \<and> starts_value c"
      by (rule join_head[OF False]) (metis ser_head)
    then obtain c t where j: "join [44] (map ser xs) = c # t" and sv: "starts_value c" by blast
    have pe: "parse_elements f' (join [44] (map ser xs) @ 93 # rest) [] = Some (JArr ([] @ xs), rest)"
      by (rule parse_elements_join[OF assms False s])
    have sk: "skip_ws (c # t @ 93 # rest) = c # t @ 93 # rest"
      using skip_ws_starts[OF sv] by simp
    have "c \<noteq> 93" using sv by (simp add: starts_value_def)
    then have "parse_value (Suc f') (91 # (c # t) @ 93 # rest) = Some (JArr xs, rest)"
      using pe sk unfolding j by (simp add: skip_ws_sep)
    then show ?thesis unfolding f using j by simp
  qed
qed

lemma reads_back_object:
  assumes "\<And>p. p \<in> set ps \<Longrightarrow> reads_back (snd p)"
    and "distinct (map fst ps)"
    and "\<And>p. p \<in> set ps \<Longrightarrow> snd p \<noteq> JUndefined"
  shows "reads_back (JObj ps)"
  unfolding reads_back_def
proof (intro allI impI)
  fix f rest
  assume c: "calls (JObj ps) \<le> f" and e: "ends_number rest"
  from c obtain f' where f: "f = Suc f'"
    and s: "sum_list (map (\<lambda>p. Suc (calls (snd p))) ps) \<le> f'"
    by (cases f) auto
  have flt: "filter (\<lambda>p. snd p \<noteq> JUndefined) ps = ps"
    using assms(3) by (simp add: filter_id_conv)
  have ser: "ser (JObj ps) = 123 # join [44] (map member ps) @ [125]"
    using flt by (simp add: member_def[abs_def])
  show "parse_value f (ser (JObj ps) @ rest) = Some (JObj ps, rest)"
  proof (cases "ps = []")
    case True
    then show ?thesis unfolding f
      by (simp add: skip_ws_sep)
  next
    case False
    have "\<exists>c t. join [44] (map member ps) = c # t \<and> starts_value c"
      by (rule join_head[OF False])
        (simp add: member_def quote_def starts_value_def is_json_ws_def)
    then obtain c t where j: "join [44] (map member ps) = c # t" and sv: "starts_value c" by blast
    have pm: "parse_members f' (join [44] (map member ps) @ 125 # rest) [] = Some (JObj ([] @ ps), rest)"
      by (rule parse_members_join[OF assms(1) False s]) (use assms(2) in simp_all)
    have sk: "skip_ws (c # t @ 125 # rest) = c # t @ 125 # rest"
      using skip_ws_starts[OF sv] by simp
    have "c \<noteq> 125" using sv by (simp add: starts_value_def)
    then have "parse_value (Suc f') (123 # (c # t) @ 125 # rest) = Some (JObj ps, rest)"
      using pm sk unfolding j by (simp add: skip_ws_sep)
    then show ?thesis unfolding f ser using j by simp
  qed
qed

lemma reads_back_atom:
  assumes "v = JNull \<or> v = JBool b \<or> v = JNum n \<or> v = JStr s"
  shows "reads_back v"
  unfolding reads_back_def
proof (intro allI impI)
  fix f rest
  assume c: "calls v \<le> f" and e: "ends_number rest"
  from c assms obtain f' where f: "f = Suc f'" by (cases f) auto
  obtain c t where h: "ser v = c # t" and sv: "starts_value c" by (rule ser_head)
  have ne: "c \<noteq> 123 \<and> c \<noteq> 91"
  proof -
    from assms consider "v = JNull" | "v = JBool b" | "v = JNum n" | "v = JStr s" by blast
    then show ?thesis
    proof cases
      case 3
      obtain d u where "show_int n = d # u" "d = 45 \<or> is_digit d" by (rule show_int_head)
      with 3 h show ?thesis by (auto simp: is_digit_def)
    qed (use h in \<open>auto simp: str_def quote_def split: if_splits\<close>)
  qed
  have pa: "parse_atom (ser v @ rest) = Some (v, rest)"
    using assms e
    by (auto simp: parse_atom_string parse_atom_true parse_atom_false parse_atom_null
        parse_atom_number)
  have "parse_value (Suc f') (c # t @ rest) = parse_atom (c # t @ rest)"
    using parse_value_atom[OF sv, of f' "t @ rest"] ne by simp
  then show "parse_value f (ser v @ rest) = Some (v, rest)"
    unfolding f using pa unfolding h by simp
qed

lemma plain_reads_back: "plain v \<Longrightarrow> reads_back v"
proof (induction v)
  case JUndefined
  then show ?case by simp
next
  case (JArr xs)
  then show ?case by (intro reads_back_array) (simp add: list_all_iff)
next
  case (JObj ps)
  have 1: "\<And>p. p \<in> set ps \<Longrightarrow> plain (snd p)" using JObj.prems by (simp add: list_all_iff)
  have 2: "\<And>p. p \<in> set ps \<Longrightarrow> reads_back (snd p)"
  proof -
    fix p assume p: "p \<in> set ps"
    obtain k v where kv: "p = (k, v)" by (cases p)
    show "reads_back (snd p)" using JObj.IH[of p v] p kv 1[OF p] by simp
  qed
  have 3: "\<And>p. p \<in> set ps \<Longrightarrow> snd p \<noteq> JUndefined"
    using 1 by fastforce
  show ?case using JObj.prems by (intro reads_back_object 2 3) simp_all
qed (auto intro: reads_back_atom)


section \<open>Reading back what was written: events\<close>

lemma join_length: "sum_list (map (\<lambda>y. Suc (length y)) ys) \<le> Suc (length (join [c] ys))"
  by (induction "[c]" ys rule: join.induct) auto

lemma ser_nonempty: "1 \<le> length (ser v)"
proof -
  obtain c t where "ser v = c # t" "starts_value c" by (rule ser_head)
  then show ?thesis by simp
qed

lemma calls_le_length: "plain v \<Longrightarrow> calls v \<le> length (ser v)"
proof (induction v)
  case (JArr xs)
  have "\<And>x. x \<in> set xs \<Longrightarrow> Suc (calls x) \<le> Suc (length (ser x))"
    using JArr by (simp add: list_all_iff)
  then have "sum_list (map (\<lambda>x. Suc (calls x)) xs) \<le> sum_list (map (\<lambda>x. Suc (length (ser x))) xs)"
    by (rule sum_list_mono)
  also have "\<dots> = sum_list (map (\<lambda>y. Suc (length y)) (map ser xs))"
    by (simp add: comp_def)
  also have "\<dots> \<le> Suc (length (join [44] (map ser xs)))" by (rule join_length)
  finally show ?case by simp
next
  case (JObj ps)
  have pl: "\<And>p. p \<in> set ps \<Longrightarrow> plain (snd p)" using JObj.prems by (simp add: list_all_iff)
  have flt: "filter (\<lambda>p. snd p \<noteq> JUndefined) ps = ps"
    using pl by (fastforce simp: filter_id_conv)
  have "\<And>p. p \<in> set ps \<Longrightarrow> Suc (calls (snd p)) \<le> Suc (length (member p))"
  proof -
    fix p assume p: "p \<in> set ps"
    obtain k v where kv: "p = (k, v)" by (cases p)
    have "calls v \<le> length (ser v)" using JObj.IH[of p v] p kv pl[OF p] by simp
    then show "Suc (calls (snd p)) \<le> Suc (length (member p))"
      unfolding kv by (simp add: member_def)
  qed
  then have "sum_list (map (\<lambda>p. Suc (calls (snd p))) ps)
      \<le> sum_list (map (\<lambda>p. Suc (length (member p))) ps)"
    by (rule sum_list_mono)
  also have "\<dots> = sum_list (map (\<lambda>y. Suc (length y)) (map member ps))"
    by (simp add: comp_def)
  also have "\<dots> \<le> Suc (length (join [44] (map member ps)))" by (rule join_length)
  finally show ?case using flt by (simp add: member_def[abs_def])
next
  case JUndefined
  then show ?case by simp
next
  case JNull
  show ?case using ser_nonempty[of JNull] by (simp del: ser.simps)
next
  case (JBool b)
  show ?case using ser_nonempty[of "JBool b"] by (simp del: ser.simps)
next
  case (JNum n)
  show ?case using ser_nonempty[of "JNum n"] by (simp del: ser.simps)
next
  case (JStr s)
  show ?case using ser_nonempty[of "JStr s"] by (simp del: ser.simps)
qed

lemma JSON_parse_line:
  assumes "plain v"
  shows "JSON_parse (ser v @ [10]) = Some v"
proof -
  have "calls v \<le> Suc (length (ser v @ [10]))"
    using calls_le_length[OF assms] by simp
  moreover have "ends_number [10]" by (simp add: ends_number_def is_digit_def)
  ultimately have "parse_value (Suc (length (ser v @ [10]))) (ser v @ [10]) = Some (v, [10])"
    by (rule reads_backD[OF plain_reads_back[OF assms]])
  then show ?thesis
    unfolding JSON_parse_def by (simp add: skip_ws_def is_json_ws_def)
qed

lemma ser_object_present:
  "ser (JObj (filter (\<lambda>p. snd p \<noteq> JUndefined) ps)) = ser (JObj ps)"
  by simp

lemma keys: "str ''type'' \<noteq> str ''tool''" "str ''type'' \<noteq> str ''toolCallId''"
  "str ''type'' \<noteq> str ''input''" "str ''type'' \<noteq> str ''output''" "str ''type'' \<noteq> str ''message''"
  "str ''type'' \<noteq> str ''model''" "str ''type'' \<noteq> str ''content''"
  "str ''tool'' \<noteq> str ''toolCallId''" "str ''tool'' \<noteq> str ''input''" "str ''tool'' \<noteq> str ''output''"
  "str ''tool'' \<noteq> str ''message''" "str ''toolCallId'' \<noteq> str ''input''"
  "str ''toolCallId'' \<noteq> str ''output''" "str ''toolCallId'' \<noteq> str ''message''"
  "str ''input'' \<noteq> str ''output''" "str ''input'' \<noteq> str ''message''"
  "str ''output'' \<noteq> str ''message''" "str ''model'' \<noteq> str ''message''"
  by (simp_all add: str_def)

lemma plain_opt: "i \<noteq> None \<Longrightarrow> plain (opt i)"
  by (cases i) (simp_all add: opt_def)

lemma plain_record: "representable e \<Longrightarrow> plain (record_of e)"
  by (cases e) (auto simp: record_of_def keys keys[symmetric] opt_def split: option.splits)

lemma encodeEvent_record: "encodeEvent e = ser (record_of e) @ [10]"
  unfolding encodeEvent_def record_of_def JSON_stringify_def by simp

lemma types: "str ''tool_call'' \<noteq> str ''tool_result''" "str ''tool_call'' \<noteq> str ''llm_start''"
  "str ''tool_call'' \<noteq> str ''token''" "str ''tool_call'' \<noteq> str ''complete''"
  "str ''tool_call'' \<noteq> str ''error''" "str ''tool_result'' \<noteq> str ''llm_start''"
  "str ''tool_result'' \<noteq> str ''token''" "str ''tool_result'' \<noteq> str ''complete''"
  "str ''tool_result'' \<noteq> str ''error''" "str ''llm_start'' \<noteq> str ''token''"
  "str ''llm_start'' \<noteq> str ''complete''" "str ''llm_start'' \<noteq> str ''error''"
  "str ''token'' \<noteq> str ''complete''" "str ''token'' \<noteq> str ''error''"
  "str ''complete'' \<noteq> str ''error''"
  by (simp_all add: str_def)

lemma event_of_record: "event_of (record_of e) = Some e"
  by (cases e)
    (auto simp: event_of_def record_of_def property_def the_string_def the_opt_string_def
      opt_def keys keys[symmetric] types types[symmetric] split: option.splits)

lemma decode_encode: "representable e \<Longrightarrow> decode (encodeEvent e) = Some e"
  unfolding decode_def encodeEvent_record
  by (simp add: JSON_parse_line[OF plain_record] event_of_record)


section \<open>Facts about the client reducer\<close>

lemma record_not_string: "record_of e \<noteq> JStr s" "record_of e \<noteq> JNull" "record_of e \<noteq> JUndefined"
  by (simp_all add: record_of_def)

lemma record_type:
  "property (record_of e) (str ''type'') =
     JStr (case e of ToolCall t m i inp \<Rightarrow> str ''tool_call''
           | ToolResult t m i inp out \<Rightarrow> str ''tool_result''
           | LlmStart mo m \<Rightarrow> str ''llm_start''
           | Token c \<Rightarrow> str ''token''
           | Complete m \<Rightarrow> str ''complete''
           | Error m \<Rightarrow> str ''error'')"
  by (cases e) (simp_all add: record_of_def property_def)

lemma record_content: "property (record_of (Token c)) (str ''content'') = JStr c"
  by (simp add: record_of_def property_def keys[symmetric])

lemma handle_record:
  "\<exists>st'. handleChunk now (record_of e) st = Returned st'
     \<and> response st' = response st @ content_of e"
proof -
  have p: "(case record_of e of JStr s \<Rightarrow> JSON_parse s | _ \<Rightarrow> Some (record_of e)) = Some (record_of e)"
    by (simp add: record_of_def)
  show ?thesis
    unfolding handleChunk_def p
    by (cases e) (simp_all add: record_not_string record_type record_content types types[symmetric])
qed

lemma handle_line:
  assumes "representable e"
  shows "handleChunk now (JStr (encodeEvent e)) st = handleChunk now (record_of e) st"
proof -
  have "JSON_parse (encodeEvent e) = Some (record_of e)"
    unfolding encodeEvent_record by (rule JSON_parse_line[OF plain_record[OF assms]])
  then show ?thesis by (simp add: handleChunk_def record_of_def)
qed

lemma handle_delivers:
  assumes "delivers c e"
  shows "\<exists>st'. handleChunk now c st = Returned st' \<and> response st' = response st @ content_of e"
  using assms handle_record[of now e st] handle_line[of e now st]
  unfolding delivers_def by auto

lemma consume_delivers:
  "delivers_all cs es \<Longrightarrow> length nows = length cs \<Longrightarrow>
   \<exists>st'. consume (zip nows cs) st = Returned st'
     \<and> response st' = response st @ concat (map content_of es)"
proof (induction cs es arbitrary: nows st rule: delivers_all.induct)
  case 1
  then show ?case by simp
next
  case (2 c cs e es)
  from "2.prems"(2) obtain now ns where n: "nows = now # ns" "length ns = length cs"
    by (cases nows) auto
  from "2.prems"(1) have d: "delivers c e" and da: "delivers_all cs es" by simp_all
  from handle_delivers[OF d, of now st] obtain s1 where
    s1: "handleChunk now c st = Returned s1" "response s1 = response st @ content_of e" by blast
  from "2.IH"[OF da n(2), of s1] obtain s2 where
    s2: "consume (zip ns cs) s1 = Returned s2"
        "response s2 = response s1 @ concat (map content_of es)" by blast
  show ?case unfolding n(1) using s1 s2 by simp
qed simp_all

lemma handle_appends:
  "handleChunk now c st = Returned st' \<Longrightarrow> prefix (response st) (response st')"
  by (auto simp: handleChunk_def split: option.splits if_splits jsval.splits outcome.splits)

lemma handle_malformed:
  "JSON_parse s = None \<Longrightarrow> handleChunk now (JStr s) st = Returned st"
  by (simp add: handleChunk_def)


section \<open>Facts about records and lines\<close>

lemma absent_not_in_record:
  "list_all (\<lambda>p. snd p \<noteq> JUndefined \<or> fst p \<notin> set (keys_of (record_of e))) (event_object e)"
  by (cases e) (auto simp: keys_of_def record_of_def keys keys[symmetric])

text \<open>Unfolding the parser on a call bound written as a numeral.\<close>

lemma fuel_numeral:
  "parse_value (numeral k) s = parse_value (Suc (pred_numeral k)) s"
  "parse_elements (numeral k) s xs = parse_elements (Suc (pred_numeral k)) s xs"
  "parse_members (numeral k) s ps = parse_members (Suc (pred_numeral k)) s ps"
  by (simp_all only: numeral_eq_Suc)

lemma truncated_line: "JSON_parse [123, 34, 116, 121, 112, 101, 34, 58, 34, 116, 111, 107] = None"
  by (simp add: JSON_parse_def fuel_numeral skip_ws_def is_json_ws_def parse_key_def parse_atom_def)

text \<open>
  Outside the representable events: \<open>undefined\<close> inside an array is written \<open>null\<close> and
  read back as \<open>null\<close>.
\<close>

lemma undefined_in_array_read_as_null:
  "decode (encodeEvent (ToolCall (str ''t'') (str ''m'') None (JArr [JUndefined])))
     = Some (ToolCall (str ''t'') (str ''m'') None (JArr [JNull]))"
proof -
  have "encodeEvent (ToolCall (str ''t'') (str ''m'') None (JArr [JUndefined]))
      = encodeEvent (ToolCall (str ''t'') (str ''m'') None (JArr [JNull]))"
    by (simp add: encodeEvent_def JSON_stringify_def)
  moreover have "representable (ToolCall (str ''t'') (str ''m'') None (JArr [JNull]))"
    by simp
  ultimately show ?thesis by (simp add: decode_encode)
qed

text \<open>The line of a \<open>token\<close> event, as an example of the format.\<close>

lemma token_line:
  "encodeEvent (Token (str ''Hi'')) =
     [123, 34, 116, 121, 112, 101, 34, 58, 34, 116, 111, 107, 101, 110, 34, 44,
      34, 99, 111, 110, 116, 101, 110, 116, 34, 58, 34, 72, 105, 34, 125, 10]"
  by (simp add: encodeEvent_def JSON_stringify_def quote_def esc_def is_high_def is_low_def str_def)


section \<open>The claims about the transformer\<close>

text \<open>
  C1, as stated: for every upstream chunk sequence the output has at most one
  \<open>llm_start\<close> event, and it comes before every \<open>token\<close> event. The second half fails
  when a \<open>text-delta\<close> chunk arrives before the first generation-beginning chunk: the
  \<open>token\<close> is emitted at once and the \<open>llm_start\<close> after it.
\<close>

theorem llm_start_after_token:
  "\<not> (length (filter is_llm_start (pipeThrough [bare (str ''text-delta''), bare (str ''start'')])) \<le> 1
      \<and> llm_start_first (pipeThrough [bare (str ''text-delta''), bare (str ''start'')]))"
  by (simp add: pipeThrough_def transform_def bare_def str_def)

text \<open>
  C1, amended: for every upstream chunk sequence the output has at most one \<open>llm_start\<close>
  event; it comes before every \<open>token\<close> event exactly when no \<open>text-delta\<close> chunk arrives
  before the first \<open>start\<close>, \<open>start-step\<close> or \<open>text-start\<close> chunk. The chunks that count
  are the transformed ones: the whole sequence, or its part before the chunk on which
  \<open>transform\<close> raises.
\<close>

theorem llm_start_once:
  "length (filter is_llm_start (pipeThrough cs)) \<le> 1
   \<and> (llm_start_first (pipeThrough cs) \<longleftrightarrow> no_text_before_start (transformed cs))
   \<and> (list_all (\<lambda>c. \<not> raises c) cs \<longrightarrow> transformed cs = cs)"
  unfolding pipeThrough_def
  using run_llm_start_count [of False cs] run_False_order [of cs] transformed_id [of cs]
  by simp

theorem llm_start_once_witness:
  "no_text_before_start
     [bare (str ''start''), bare (str ''text-delta''), bare (str ''start-step''),
      bare (str ''text-delta'')]
   \<and> llm_start_first (pipeThrough
     [bare (str ''start''), bare (str ''text-delta''), bare (str ''start-step''),
      bare (str ''text-delta'')])
   \<and> length (filter is_llm_start (pipeThrough
     [bare (str ''start''), bare (str ''text-delta''), bare (str ''start-step''),
      bare (str ''text-delta'')])) \<le> 1"
  using llm_start_once [of "[bare (str ''start''), bare (str ''text-delta''),
      bare (str ''start-step''), bare (str ''text-delta'')]"]
  by (simp add: is_start_signal_def bare_def raises_def is_error_chunk_def str_def)

text \<open>
  C2, as stated: for every upstream chunk sequence the output ends with exactly one of
  \<open>complete\<close> or \<open>error\<close>, and nothing is forwarded after an \<open>error\<close>. The transformer
  keeps no record of having emitted a terminal event: a \<open>text-delta\<close> chunk that arrives
  after an \<open>error\<close> chunk is forwarded as a \<open>token\<close>.
\<close>

theorem token_after_error:
  "\<not> terminates_once (pipeThrough [bare (str ''error''), bare (str ''text-delta'')])"
  by (simp add: terminates_once_def pipeThrough_def transform_def bare_def str_def)

text \<open>
  C2, amended: for every upstream chunk sequence the output has as many \<open>complete\<close> and
  \<open>error\<close> events as there are \<open>finish\<close>, \<open>tool-error\<close> and \<open>error\<close> chunks among the
  chunks transformed; when the only such chunk is the last one, the output ends with
  exactly one of \<open>complete\<close> or \<open>error\<close> and no event follows it. A \<open>text-delta\<close> chunk is
  forwarded as a \<open>token\<close> whatever was transformed before it, an \<open>error\<close> chunk
  included. The chunks transformed are the whole sequence, or its part before the chunk on
  which \<open>transform\<close> raises.
\<close>

theorem terminal_events:
  "length (filter is_terminal (pipeThrough cs))
     = length (filter is_terminal_chunk (transformed cs))
   \<and> (terminal_chunk_last (transformed cs) \<longrightarrow> terminates_once (pipeThrough cs))
   \<and> (is_text_delta c \<longrightarrow>
        (\<exists>t. pipeThrough (transformed cs @ [c]) = pipeThrough cs @ [Token t]))
   \<and> (list_all (\<lambda>c. \<not> raises c) cs \<longrightarrow> transformed cs = cs)"
  unfolding pipeThrough_def
  using run_terminal_count [of False cs] run_terminal_last [of cs False]
    run_snoc_text_delta [of c False cs] transformed_id [of cs]
  by simp

theorem terminal_events_witness:
  "terminal_chunk_last [bare (str ''start''), bare (str ''text-delta''), bare (str ''finish'')]
   \<and> terminates_once
       (pipeThrough [bare (str ''start''), bare (str ''text-delta''), bare (str ''finish'')])
   \<and> is_text_delta (bare (str ''text-delta''))
   \<and> (\<exists>t. pipeThrough
         ([bare (str ''start''), bare (str ''text-delta''), bare (str ''finish'')]
          @ [bare (str ''text-delta'')])
       = pipeThrough [bare (str ''start''), bare (str ''text-delta''), bare (str ''finish'')]
         @ [Token t])"
proof -
  let ?cs = "[bare (str ''start''), bare (str ''text-delta''), bare (str ''finish'')]"
  have ok: "list_all (\<lambda>c. \<not> raises c) ?cs"
    by (simp add: raises_def is_error_chunk_def bare_def str_def)
  have last: "terminal_chunk_last ?cs"
    by (simp add: terminal_chunk_last_def is_terminal_chunk_def bare_def str_def)
  have td: "is_text_delta (bare (str ''text-delta''))"
    by (simp add: is_text_delta_def bare_def)
  from terminal_events [of ?cs "bare (str ''text-delta'')"] ok
  have id: "transformed ?cs = ?cs" by blast
  from terminal_events [of ?cs "bare (str ''text-delta'')"] last td show ?thesis
    unfolding id by blast
qed

text \<open>
  C8, as stated: for a chunk of any type \<open>transform\<close> never throws. The \<open>error\<close> arm
  converts \<open>chunk.error\<close> to a string before it enqueues anything, and the conversion of
  an object with an own property \<open>toString\<close> raises a \<open>TypeError\<close>, which nothing in
  \<open>transform\<close> catches.
\<close>

theorem transform_raises_on_error_detail:
  "transform False
     ((bare (str ''error'')) \<lparr>error := JObj [(str ''toString'', JNum 1)]\<rparr>) = Raised TypeError"
  by (simp add: transform_def bare_def str_def)

text \<open>
  C8, amended: a chunk whose type is none of \<open>start\<close>, \<open>start-step\<close>, \<open>text-start\<close>,
  \<open>tool-call\<close>, \<open>tool-result\<close>, \<open>text-delta\<close>, \<open>finish\<close>, \<open>tool-error\<close>, \<open>error\<close>
  produces no event and leaves the flag as it is. For a chunk of any type \<open>transform\<close>
  returns unless the conversion to a string of the tool name (in the \<open>tool-call\<close> and
  \<open>tool-result\<close> arms) or of the error detail (in the \<open>tool-error\<close> and \<open>error\<close> arms)
  raises, and then it raises. When it returns it yields at most one event, and an
  \<open>error\<close> event exactly for the \<open>tool-error\<close> and \<open>error\<close> chunks: an upstream failure
  whose detail converts shows as one in-band \<open>error\<close> event.
\<close>

theorem transform_total:
  "(\<not> known_type (type c) \<longrightarrow> transform s c = Returned (s, []))
   \<and> (returns (transform s c) \<longleftrightarrow> \<not> raises c)
   \<and> (\<forall>s' out. transform s c = Returned (s', out) \<longrightarrow>
         length out \<le> 1 \<and> (list_ex is_error out \<longleftrightarrow> is_error_chunk c))
   \<and> (is_error_chunk c \<longrightarrow>
        transform s c =
          (case js_String (error c) of
             Raised e \<Rightarrow> Raised e
           | Returned detail \<Rightarrow>
               Returned
                 (s, [Error ((if type c = str ''tool-error'' then str ''Tool error: ''
                              else str ''Error: '') @ detail)])))"
  using transform_unknown [of c s] transform_returns [of s c] transform_length [of s c]
    transform_error_iff [of s c] transform_error_chunk [of c s]
  by blast

theorem transform_total_witness:
  "\<not> known_type (type (bare (str ''reasoning-delta'')))
   \<and> transform True (bare (str ''reasoning-delta'')) = Returned (True, [])
   \<and> is_error_chunk ((bare (str ''tool-error'')) \<lparr>error := JStr (str ''fetch failed'')\<rparr>)
   \<and> \<not> raises ((bare (str ''tool-error'')) \<lparr>error := JStr (str ''fetch failed'')\<rparr>)
   \<and> transform False ((bare (str ''tool-error'')) \<lparr>error := JStr (str ''fetch failed'')\<rparr>)
       = Returned (False, [Error (str ''Tool error: fetch failed'')])
   \<and> raises ((bare (str ''tool-call'')) \<lparr>toolName := JArr [JObj [(str ''toString'', JNull)]]\<rparr>)
   \<and> \<not> returns (transform False
         ((bare (str ''tool-call'')) \<lparr>toolName := JArr [JObj [(str ''toString'', JNull)]]\<rparr>))"
  using transform_total [of "bare (str ''reasoning-delta'')" True]
    transform_total [of "(bare (str ''tool-error'')) \<lparr>error := JStr (str ''fetch failed'')\<rparr>" False]
    transform_total [of "(bare (str ''tool-call'')) \<lparr>toolName := JArr [JObj [(str ''toString'', JNull)]]\<rparr>" False]
  by (simp add: known_type_def is_error_chunk_def raises_def toolName_of_def bare_def str_def)

text \<open>
  C10: the output of a request is a function of its own chunk sequence. Whatever chunks
  of other requests are interleaved with it, the events a request receives are those of
  \<open>pipeThrough\<close> on its own chunks, with its flag starting at \<open>false\<close>; so two requests
  with the same chunk sequence receive the same event sequence.
\<close>

theorem transformer_isolated:
  "map snd (filter (\<lambda>p. fst p = r) (serve (\<lambda>r. Some False) tr))
     = pipeThrough (map snd (filter (\<lambda>p. fst p = r) tr))
   \<and> (map snd (filter (\<lambda>p. fst p = r) tr) = map snd (filter (\<lambda>p. fst p = r') tr) \<longrightarrow>
        map snd (filter (\<lambda>p. fst p = r) (serve (\<lambda>r. Some False) tr))
          = map snd (filter (\<lambda>p. fst p = r') (serve (\<lambda>r. Some False) tr)))"
  unfolding pipeThrough_def by (simp add: serve_isolated)

theorem transformer_isolated_witness:
  "map snd (filter (\<lambda>p. fst p = 1)
       [(1::nat, bare (str ''start'')), (2, bare (str ''start'')),
        (2, bare (str ''text-delta'')), (1, bare (str ''text-delta''))])
     = map snd (filter (\<lambda>p. fst p = 2)
       [(1::nat, bare (str ''start'')), (2, bare (str ''start'')),
        (2, bare (str ''text-delta'')), (1, bare (str ''text-delta''))])
   \<and> map snd (filter (\<lambda>p. fst p = 1) (serve (\<lambda>r. Some False)
       [(1::nat, bare (str ''start'')), (2, bare (str ''start'')),
        (2, bare (str ''text-delta'')), (1, bare (str ''text-delta''))]))
     = map snd (filter (\<lambda>p. fst p = 2) (serve (\<lambda>r. Some False)
       [(1::nat, bare (str ''start'')), (2, bare (str ''start'')),
        (2, bare (str ''text-delta'')), (1, bare (str ''text-delta''))]))"
proof -
  let ?tr = "[(1::nat, bare (str ''start'')), (2, bare (str ''start'')),
        (2, bare (str ''text-delta'')), (1, bare (str ''text-delta''))]"
  have same: "map snd (filter (\<lambda>p. fst p = 1) ?tr) = map snd (filter (\<lambda>p. fst p = 2) ?tr)"
    by simp
  from transformer_isolated [of 1 ?tr 2] same show ?thesis by blast
qed


section \<open>The claims about tool results and the fetcher\<close>



text \<open>
  C7: for every query and \<open>maxResults\<close>, once the request has a response: on a
  non-success status \<open>fetchArxiv\<close> returns the string
  \<open>Error: ArXiv API returned status\<close> followed by the status code, and does not raise;
  on a success status it returns what reading the body gives.
\<close>

theorem fetchArxiv_status:
  assumes "encodeURIComponent query = Returned q"
    and "fetch (arxiv_url q (case maxResults of None \<Rightarrow> 5 | Some n \<Rightarrow> n)) = Returned r"
  shows "fetchArxiv encodeURIComponent fetch query maxResults =
     (if ok r then body r
      else Returned (str ''Error: ArXiv API returned status '' @ show_nat (status r)))"
  using assms by (rule fetchArxiv_result)

theorem fetchArxiv_status_witness:
  "fetchArxiv Returned (\<lambda>u. Returned \<lparr>ok = False, status = 503, body = Raised JUndefined\<rparr>)
     (str ''agents'') (Some 2)
     = Returned (str ''Error: ArXiv API returned status 503'')
   \<and> fetchArxiv Returned
       (\<lambda>u. if u = str ''http://export.arxiv.org/api/query?search_query=all:agents&max_results=5&sortBy=relevance''
            then Returned \<lparr>ok = True, status = 200, body = Returned (str ''<feed></feed>'')\<rparr>
            else Raised JNull)
       (str ''agents'') None
     = Returned (str ''<feed></feed>'')"
  using fetchArxiv_status [of Returned "str ''agents''" "str ''agents''"
      "\<lambda>u. Returned \<lparr>ok = False, status = 503, body = Raised JUndefined\<rparr>" "Some 2"
      "\<lparr>ok = False, status = 503, body = Raised JUndefined\<rparr>"]
    fetchArxiv_status [of Returned "str ''agents''" "str ''agents''"
      "\<lambda>u. if u = str ''http://export.arxiv.org/api/query?search_query=all:agents&max_results=5&sortBy=relevance''
            then Returned \<lparr>ok = True, status = 200, body = Returned (str ''<feed></feed>'')\<rparr>
            else Raised JNull" None
      "\<lparr>ok = True, status = 200, body = Returned (str ''<feed></feed>'')\<rparr>"]
  by (simp add: arxiv_url_def show_int_def show_nat.simps str_def)

text \<open>
  C4, as stated: when the literature API answers with a non-success status, the
  \<open>tool_result\<close> event of \<open>arxiv_search\<close> carries the message \<open>arxiv_search complete\<close>.
  The placeholder the fetcher returns is a string, so the summariser runs on it; at status
  503 the message is not \<open>arxiv_search complete\<close>.
\<close>

theorem arxiv_failure_not_generic:
  "map message_of
     (pipeThrough
        [(bare (str ''tool-result''))
           \<lparr>toolName := JStr (str ''arxiv_search''),
            output' :=
              (case fetchArxiv Returned
                      (\<lambda>u. Returned \<lparr>ok = False, status = 503, body = Raised JUndefined\<rparr>)
                      (str ''agents'') (Some 5) of
                 Returned t \<Rightarrow> JStr t
               | Raised e \<Rightarrow> JUndefined)\<rparr>])
   \<noteq> [Some (str ''arxiv_search complete'')]"
proof -
  have f: "fetchArxiv Returned
             (\<lambda>u. Returned \<lparr>ok = False, status = 503, body = Raised JUndefined\<rparr>)
             (str ''agents'') (Some 5)
           = Returned (str ''Error: ArXiv API returned status '' @ show_nat 503)"
    by (simp add: fetchArxiv_def)
  have m: "summary (str ''Error: ArXiv API returned status '' @ show_nat 503)
      = str ''Found 0 papers''"
    by (rule summary_no_tags) (rule placeholder_no_tags)
  have "str ''Found 0 papers'' \<noteq> str ''arxiv_search complete''"
    by (simp add: str_def)
  then show ?thesis
    unfolding f pipeThrough_def
    by (simp add: transform_tool_result bare_def result_message_arxiv m)
qed

text \<open>
  C4, amended: when the literature API answers with a non-success status, the output of
  the tool is the placeholder string, the \<open>tool_result\<close> event of \<open>arxiv_search\<close>
  carries the message \<open>Found 0 papers\<close> (the placeholder holds no tag), and an upstream
  sequence that ends with \<open>finish\<close>, and on none of whose chunks \<open>transform\<close> raises,
  still gives an output that ends with \<open>complete\<close>. The runtime hands the value the tool
  returned to the transformer as the \<open>output\<close> of the \<open>tool-result\<close> chunk.
\<close>

theorem arxiv_failure_message:
  assumes "encodeURIComponent query = Returned q"
    and "fetch (arxiv_url q (case maxResults of None \<Rightarrow> 5 | Some n \<Rightarrow> n)) = Returned r"
    and "\<not> ok r"
    and "fetchArxiv encodeURIComponent fetch query maxResults = Returned out"
    and "type c = str ''tool-result''"
    and "toolName c = JStr (str ''arxiv_search'')"
    and "output' c = JStr out"
    and "type f = str ''finish''"
    and "list_all (\<lambda>x. \<not> raises x) (pre @ post)"
  shows "transform s c =
      Returned
        (s, [ToolResult (str ''arxiv_search'') (str ''Found 0 papers'') (toolCallId_of c)
               (input c) (JStr out)])
    \<and> last (pipeThrough (pre @ c # post @ [f])) = Complete (str ''Analysis complete'')"
proof -
  from assms(1-4) have out: "out = str ''Error: ArXiv API returned status '' @ show_nat (status r)"
    by (simp add: fetchArxiv_result)
  have "summary out = str ''Found 0 papers''"
    unfolding out by (rule summary_no_tags) (rule placeholder_no_tags)
  with assms(5-7) have 1: "transform s c =
      Returned
        (s, [ToolResult (str ''arxiv_search'') (str ''Found 0 papers'') (toolCallId_of c)
               (input c) (JStr out)])"
    by (simp add: transform_tool_result result_message_arxiv)
  have "returns (transform s c)" unfolding 1 by simp
  then have "\<not> raises c" by (simp add: transform_returns)
  with assms(9) have ok: "list_all (\<lambda>x. \<not> raises x) (pre @ c # post)" by simp
  have "pre @ c # post @ [f] = (pre @ c # post) @ [f]" by simp
  then have 2: "last (pipeThrough (pre @ c # post @ [f])) = Complete (str ''Analysis complete'')"
    unfolding pipeThrough_def
    using run_snoc_finish[OF assms(8) ok, of False] by simp
  from 1 2 show ?thesis by simp
qed

theorem arxiv_failure_message_witness:
  "transform True
     ((bare (str ''tool-result''))
        \<lparr>toolName := JStr (str ''arxiv_search''),
         output' := JStr (str ''Error: ArXiv API returned status 503'')\<rparr>)
   = Returned (True,
      [ToolResult (str ''arxiv_search'') (str ''Found 0 papers'') None JUndefined
         (JStr (str ''Error: ArXiv API returned status 503''))])
   \<and> last (pipeThrough
       [bare (str ''start''), bare (str ''tool-call''),
        (bare (str ''tool-result''))
          \<lparr>toolName := JStr (str ''arxiv_search''),
           output' := JStr (str ''Error: ArXiv API returned status 503'')\<rparr>,
        bare (str ''text-delta''), bare (str ''finish'')])
     = Complete (str ''Analysis complete'')"
proof -
  have f: "fetchArxiv Returned
             (\<lambda>u. Returned \<lparr>ok = False, status = 503, body = Raised JUndefined\<rparr>)
             (str ''agents'') (Some 5)
           = Returned (str ''Error: ArXiv API returned status 503'')"
    by (simp add: fetchArxiv_def show_nat.simps str_def)
  have ok: "list_all (\<lambda>x. \<not> raises x)
      ([bare (str ''start''), bare (str ''tool-call'')] @ [bare (str ''text-delta'')])"
    by (simp add: raises_def is_error_chunk_def toolName_of_def bare_def str_def)
  show ?thesis
    using arxiv_failure_message
      [of Returned "str ''agents''" "str ''agents''"
        "\<lambda>u. Returned \<lparr>ok = False, status = 503, body = Raised JUndefined\<rparr>" "Some 5"
        "\<lparr>ok = False, status = 503, body = Raised JUndefined\<rparr>"
        "str ''Error: ArXiv API returned status 503''"
        "(bare (str ''tool-result''))
          \<lparr>toolName := JStr (str ''arxiv_search''),
           output' := JStr (str ''Error: ArXiv API returned status 503'')\<rparr>"
        "bare (str ''finish'')"
        "[bare (str ''start''), bare (str ''tool-call'')]" "[bare (str ''text-delta'')]" True,
        OF _ _ _ f _ _ _ _ ok]
    by (simp add: bare_def toolCallId_of_def)
qed


section \<open>The claims about the wire format and the client reducer\<close>

text \<open>
  C5: for every representable \<open>StreamEvent\<close>, decoding the line \<open>encodeEvent\<close> produces
  (\<open>JSON.parse\<close> of the newline-terminated line) gives the event back. Representable
  means that a payload \<open>input\<close> or \<open>output\<close> that is present is data a record can hold:
  no \<open>undefined\<close> inside it. The optional fields \<open>toolCallId\<close>, \<open>input\<close> and \<open>output\<close>
  may each be absent, and an absent field is no key of the record read.
\<close>

theorem round_trip:
  assumes "representable e"
  shows "decode (encodeEvent e) = Some e
    \<and> JSON_parse (encodeEvent e) = Some (record_of e)
    \<and> list_all (\<lambda>p. snd p \<noteq> JUndefined \<or> fst p \<notin> set (keys_of (record_of e)))
         (event_object e)"
proof -
  have "JSON_parse (encodeEvent e) = Some (record_of e)"
    unfolding encodeEvent_record by (rule JSON_parse_line[OF plain_record[OF assms]])
  then show ?thesis using decode_encode[OF assms] absent_not_in_record[of e] by simp
qed

theorem round_trip_witness:
  "representable
     (ToolCall (str ''arxiv_search'') (str ''Calling arxiv_search...'') None
        (JObj [(str ''query'', JStr [97, 34, 10, 55357]), (str ''maxResults'', JNum 5)]))
   \<and> decode (encodeEvent
       (ToolCall (str ''arxiv_search'') (str ''Calling arxiv_search...'') None
          (JObj [(str ''query'', JStr [97, 34, 10, 55357]), (str ''maxResults'', JNum 5)])))
     = Some (ToolCall (str ''arxiv_search'') (str ''Calling arxiv_search...'') None
          (JObj [(str ''query'', JStr [97, 34, 10, 55357]), (str ''maxResults'', JNum 5)]))
   \<and> str ''toolCallId'' \<notin> set (keys_of (record_of
       (ToolCall (str ''arxiv_search'') (str ''Calling arxiv_search...'') None
          (JObj [(str ''query'', JStr [97, 34, 10, 55357]), (str ''maxResults'', JNum 5)]))))"
  using round_trip [of "ToolCall (str ''arxiv_search'') (str ''Calling arxiv_search...'') None
          (JObj [(str ''query'', JStr [97, 34, 10, 55357]), (str ''maxResults'', JNum 5)])"]
  by (simp add: str_def opt_def)

text \<open>
  C6: for every sequence of events delivered to the reducer, as parsed records or as
  lines, the response text after the last of them is the text before the first followed by
  the \<open>content\<close> of the \<open>token\<close> events among them, in arrival order; and whatever the
  chunk, a call of \<open>handleChunk\<close> leaves the old response text as a prefix of the new one.
\<close>

theorem response_concatenation:
  assumes "delivers_all chunks es" and "length nows = length chunks"
  shows "(\<exists>st'. consume (zip nows chunks) st = Returned st'
           \<and> response st' = response st @ concat (map content_of es))
    \<and> (\<forall>now chunk s s'. handleChunk now chunk s = Returned s' \<longrightarrow>
          prefix (response s) (response s'))"
  using consume_delivers[OF assms, of st] handle_appends by blast

theorem response_concatenation_witness:
  "delivers_all
     [record_of (LlmStart (str ''gpt-5'') (str ''Analyzing'')), record_of (Token (str ''Hi'')),
      JStr (encodeEvent (Token (str '' there''))), record_of (Complete (str ''Analysis complete''))]
     [LlmStart (str ''gpt-5'') (str ''Analyzing''), Token (str ''Hi''), Token (str '' there''),
      Complete (str ''Analysis complete'')]
   \<and> (\<exists>st'. consume (zip [1, 2, 3, 4]
       [record_of (LlmStart (str ''gpt-5'') (str ''Analyzing'')), record_of (Token (str ''Hi'')),
        JStr (encodeEvent (Token (str '' there''))), record_of (Complete (str ''Analysis complete''))])
       \<lparr>response = [], activity = [], status' = StatusLoading\<rparr> = Returned st'
     \<and> response st' = str ''Hi there'')"
  using response_concatenation [of
      "[record_of (LlmStart (str ''gpt-5'') (str ''Analyzing'')), record_of (Token (str ''Hi'')),
        JStr (encodeEvent (Token (str '' there''))), record_of (Complete (str ''Analysis complete''))]"
      "[LlmStart (str ''gpt-5'') (str ''Analyzing''), Token (str ''Hi''), Token (str '' there''),
        Complete (str ''Analysis complete'')]"
      "[1, 2, 3, 4]" "\<lparr>response = [], activity = [], status' = StatusLoading\<rparr>"]
  by (simp add: delivers_def str_def)

text \<open>
  C9: for a chunk that is a string and does not parse, \<open>handleChunk\<close> returns without
  raising and leaves status, activity log and response text as they were; the chunks
  after it are handled from the same state.
\<close>

theorem malformed_dropped:
  assumes "JSON_parse s = None"
  shows "handleChunk now (JStr s) st = Returned st
    \<and> consume ((now, JStr s) # rest) st = consume rest st"
  using handle_malformed[OF assms, of now st] by simp

theorem malformed_dropped_witness:
  "JSON_parse [123, 34, 116, 121, 112, 101, 34, 58, 34, 116, 111, 107] = None
   \<and> handleChunk 7 (JStr [123, 34, 116, 121, 112, 101, 34, 58, 34, 116, 111, 107])
       \<lparr>response = str ''Hi'', activity = [], status' = StatusLoading\<rparr>
     = Returned \<lparr>response = str ''Hi'', activity = [], status' = StatusLoading\<rparr>"
  using malformed_dropped [OF truncated_line, of 7
      "\<lparr>response = str ''Hi'', activity = [], status' = StatusLoading\<rparr>" "[]"]
    truncated_line
  by simp

end
